theory Spec2Isabelle
  imports Main "HOL-Library.Sublist"
begin

section \<open>Bytes, string views and failures\<close>

text \<open>
  A \<open>DS_StringView\<close> is a pointer and a size; no buffer that a view points into is written
  after the view is taken, so a view is modelled by the bytes it covers. Offsets and sizes
  are \<open>intptr_t\<close> in the source and \<open>int\<close> here (\<open>Size - 2\<close> can be negative); buffer sizes
  stay far below \<open>INTPTR_MAX\<close>, so no offset wraps. Pointers that walk a buffer and loop
  counters that only grow from 0 (\<open>ptr\<close>, \<open>indent\<close>, \<open>i\<close>) are offsets of type \<open>nat\<close>.
\<close>

type_synonym DS_StringView = string

abbreviation NUL :: char where "NUL \<equiv> CHR 0x00"
abbreviation TAB :: char where "TAB \<equiv> CHR 0x09"
abbreviation LF :: char where "LF \<equiv> CHR 0x0A"
abbreviation CR :: char where "CR \<equiv> CHR 0x0D"
abbreviation SPACE :: char where "SPACE \<equiv> CHR 0x20"

text \<open>
  \<open>DS_ASSERT\<close> is \<open>assert\<close>: a failed assertion aborts the process. The other three
  failures are the \<open>return 1\<close> paths of \<open>main\<close> after the input file has been read.
\<close>

datatype error = AssertFailed | TempFileFailed | PythonFailed | TargetFileFailed

text \<open>What \<open>%s\<close> (and \<open>%.*s\<close> with the view's size as precision) prints of a buffer: the
  bytes before the first NUL.\<close>

definition cstr :: "string \<Rightarrow> string" where
  "cstr s = takeWhile (\<lambda>c. c \<noteq> NUL) s"

subsection \<open>\<open>DS_StringView::Find\<close>\<close>

text \<open>The probe loop of \<open>Find\<close>: \<open>ptr\<close> runs from \<open>start_from\<close> while
  \<open>ptr <= Size - other.Size\<close>; \<open>memcmp\<close> compares \<open>other.Size\<close> bytes at \<open>ptr\<close>.\<close>

function Find_loop :: "DS_StringView \<Rightarrow> DS_StringView \<Rightarrow> nat \<Rightarrow> nat" where
  "Find_loop self other ptr =
     (if ptr + length other \<le> length self then
        (if take (length other) (drop ptr self) = other then ptr
         else Find_loop self other (Suc ptr))
      else length self)"
  by pat_completeness auto
termination
  by (relation "measure (\<lambda>(self, other, ptr). Suc (length self) - ptr)") auto

declare Find_loop.simps [simp del]

text \<open>The body of \<open>Find\<close> below its assertion.\<close>

definition Find_body :: "DS_StringView \<Rightarrow> DS_StringView \<Rightarrow> nat \<Rightarrow> nat" where
  "Find_body self other start_from =
     (if length other \<le> length self then Find_loop self other start_from else length self)"

definition Find :: "DS_StringView \<Rightarrow> DS_StringView \<Rightarrow> int \<Rightarrow> error + int" where
  "Find self other start_from =
     (if 0 \<le> start_from \<and> start_from \<le> int (length self)
      then Inr (int (Find_body self other (nat start_from)))
      else Inl AssertFailed)"

subsection \<open>\<open>DS_StringView::Slice\<close> and \<open>Split\<close>\<close>

text \<open>The second argument defaults to \<open>INTPTR_MAX\<close>, which stands for the view's size;
  \<open>None\<close> is the omitted argument.\<close>

definition Slice :: "DS_StringView \<Rightarrow> int \<Rightarrow> int option \<Rightarrow> error + DS_StringView" where
  "Slice self from to_arg =
     (let to = (case to_arg of None \<Rightarrow> int (length self) | Some t \<Rightarrow> t) in
      if from < 0 then Inl AssertFailed
      else if int (length self) < to then Inl AssertFailed
      else if to < from then Inl AssertFailed
      else Inr (take (nat (to - from)) (drop (nat from) self)))"

text \<open>\<open>Split\<close> calls \<open>Find\<close> with \<open>start_from = 0\<close>, which its assertion always admits.
  The result is the returned view paired with the new value of \<open>*this\<close>.\<close>

definition Split :: "DS_StringView \<Rightarrow> DS_StringView \<Rightarrow> DS_StringView \<times> DS_StringView" where
  "Split self split_by =
     (let offset = Find_body self split_by 0;
          advance = (if length self < offset + length split_by then length self
                     else offset + length split_by)
      in (take offset self, drop advance self))"

text \<open>\<open>DS_Array::operator[]\<close>.\<close>

definition at :: "'a list \<Rightarrow> nat \<Rightarrow> error + 'a" where
  "at xs i = (if i < length xs then Inr (xs ! i) else Inl AssertFailed)"

lemma Find_loop_le: "Find_loop self other ptr \<le> length self"
proof (induction self other ptr rule: Find_loop.induct)
  case (1 self other ptr)
  then show ?case by (subst Find_loop.simps) auto
qed

lemma Find_loop_ge: "ptr \<le> length self \<Longrightarrow> ptr \<le> Find_loop self other ptr"
proof (induction self other ptr rule: Find_loop.induct)
  case (1 self other ptr)
  show ?case
  proof (cases "ptr + length other \<le> length self \<and> take (length other) (drop ptr self) \<noteq> other")
    case True
    then have "Suc ptr \<le> length self"
      by (cases other) auto
    with 1 True have "Suc ptr \<le> Find_loop self other (Suc ptr)" by simp
    with True show ?thesis by (subst Find_loop.simps) simp
  next
    case False
    with 1(2) show ?thesis by (subst Find_loop.simps) auto
  qed
qed

lemma Find_body_le: "Find_body self other start \<le> length self"
  by (simp add: Find_body_def Find_loop_le)

lemma Find_body_ge: "start \<le> length self \<Longrightarrow> start \<le> Find_body self other start"
  by (simp add: Find_body_def Find_loop_ge)

lemma Find_InrD:
  assumes "Find self other k = Inr r"
  shows "0 \<le> k" "k \<le> int (length self)" "r = int (Find_body self other (nat k))"
    "k \<le> r" "r \<le> int (length self)"
proof -
  show k: "0 \<le> k" "k \<le> int (length self)" and r: "r = int (Find_body self other (nat k))"
    using assms by (auto simp: Find_def split: if_splits)
  from k have "nat k \<le> length self" by simp
  from Find_body_ge[OF this, of other] r k show "k \<le> r" by simp
  from r Find_body_le[of self other "nat k"] show "r \<le> int (length self)" by simp
qed

lemma Find_zero: "Find self other 0 = Inr (int (Find_body self other 0))"
  by (simp add: Find_def)

section \<open>The snippet transformer (\<open>main\<close>, loop body after the scan step)\<close>

lemma Split_shrinks:
  assumes "lines \<noteq> []" "(line, rest) = Split lines [c]"
  shows "length rest < length lines"
  using assms by (cases lines) (auto simp: Split_def Let_def split: if_splits)

text \<open>The \<open>while (lines.Size > 0)\<close> loop of the \<open>return\<close> branch: each line loses one
  trailing CR, empty lines are skipped, a line that does not start with a tab or a space gets
  a tab, and every line is closed by LF.\<close>

function wrap_lines :: "DS_StringView \<Rightarrow> string \<Rightarrow> string" where
  "wrap_lines lines new_python_string =
     (if 0 < length lines then
        (case Split lines [LF] of (line0, lines') \<Rightarrow>
           (let line = (if 0 < length line0 \<and> line0 ! (length line0 - 1) = CR
                        then take (length line0 - 1) line0 else line0)
            in wrap_lines lines'
                 (if 0 < length line then
                    (if line ! 0 \<noteq> TAB \<and> line ! 0 \<noteq> SPACE
                     then new_python_string @ [TAB] else new_python_string) @ line @ [LF]
                  else new_python_string)))
      else new_python_string)"
  by pat_completeness auto
termination
  by (relation "measure (\<lambda>(lines, acc). length lines)") (auto intro: Split_shrinks)

declare wrap_lines.simps [simp del]

text \<open>The counting loop of the other branch: one count per \<open>Split\<close>.\<close>

function count_lines :: "DS_StringView \<Rightarrow> int \<Rightarrow> int" where
  "count_lines lines lines_count =
     (if 0 < length lines then
        (case Split lines [LF] of (line, lines') \<Rightarrow> count_lines lines' (lines_count + 1))
      else lines_count)"
  by pat_completeness auto
termination
  by (relation "measure (\<lambda>(lines, n). length lines)") (auto intro: Split_shrinks)

declare count_lines.simps [simp del]

definition error_program :: string where
  "error_program =
     ''print('' @ [CHR 0x27] @ ''Error: No return statement found in a multiline code block!''
       @ [CHR 0x27] @ '')''"

text \<open>Lines 67 to 108 of \<open>main\<close>: the program text and \<open>is_multiline\<close> of one directive
  body. \<open>Addf("print(%.*s)\n", Size, Data)\<close> formats the body as a C string.\<close>

definition transform :: "DS_StringView \<Rightarrow> string \<times> bool" where
  "transform python_string =
     (let is_multiline = (Find_body python_string ''return'' 0 \<noteq> length python_string) in
      if is_multiline then
        (wrap_lines python_string (''def user_fn():'' @ [LF]) @ ''print(user_fn())'' @ [LF], True)
      else if count_lines python_string 0 \<le> 1 then
        (''print('' @ cstr python_string @ '')'' @ [LF], False)
      else (error_program, False))"

section \<open>The scanner (\<open>main\<close>, lines 52 to 110)\<close>

function scan_loop ::
  "DS_StringView \<Rightarrow> DS_StringView list \<Rightarrow> string list \<Rightarrow> bool list \<Rightarrow>
     error + (DS_StringView \<times> DS_StringView list \<times> string list \<times> bool list)" where
  "scan_loop remaining ranges_to_keep python_strings python_strings_is_multiline =
     (case Find remaining ''/*.py'' 0 of Inl e \<Rightarrow> Inl e
      | Inr pyexpand_offset \<Rightarrow>
        if pyexpand_offset = int (length remaining)
        then Inr (remaining, ranges_to_keep, python_strings, python_strings_is_multiline)
        else
          (case Find remaining ''*/'' (pyexpand_offset + 5) of Inl e \<Rightarrow> Inl e
           | Inr end_comment_offset \<Rightarrow>
          (case Slice remaining (pyexpand_offset + 5) (Some end_comment_offset) of Inl e \<Rightarrow> Inl e
           | Inr python_string \<Rightarrow>
          (case Slice remaining 0 (Some (end_comment_offset + 2)) of Inl e \<Rightarrow> Inl e
           | Inr kept \<Rightarrow>
          (case Find remaining ''/*'' (end_comment_offset + 2) of Inl e \<Rightarrow> Inl e
           | Inr terminator_comment_offset \<Rightarrow>
          (case Slice remaining terminator_comment_offset None of Inl e \<Rightarrow> Inl e
           | Inr remaining' \<Rightarrow>
          (case transform python_string of (new_python_string, is_multiline) \<Rightarrow>
             scan_loop remaining' (ranges_to_keep @ [kept])
               (python_strings @ [new_python_string])
               (python_strings_is_multiline @ [is_multiline]))))))))"
  by pat_completeness auto

lemma scan_step_shrinks:
  assumes "Find remaining ''/*.py'' 0 = Inr p"
    "Find remaining ''*/'' (p + 5) = Inr e"
    "Find remaining ''/*'' (e + 2) = Inr t"
    "Slice remaining t None = Inr remaining'"
  shows "length remaining' < length remaining"
proof -
  have "0 \<le> p" using Find_InrD(4)[OF assms(1)] .
  moreover have "p + 5 \<le> e" using Find_InrD(4)[OF assms(2)] .
  moreover have "e + 2 \<le> t" using Find_InrD(4)[OF assms(3)] .
  moreover have "t \<le> int (length remaining)" using Find_InrD(5)[OF assms(3)] .
  ultimately show ?thesis using assms(4) by (auto simp: Slice_def split: if_splits)
qed

termination scan_loop
  by (relation "measure (\<lambda>(remaining, a, b, c). length remaining)")
     (auto intro: scan_step_shrinks)

declare scan_loop.simps [simp del]

text \<open>Line 110: after the loop the rest of the buffer is the last kept range.\<close>

definition scan ::
  "DS_StringView \<Rightarrow> error + (DS_StringView list \<times> string list \<times> bool list)" where
  "scan file_data =
     (case scan_loop file_data [] [] [] of Inl e \<Rightarrow> Inl e
      | Inr (remaining, ranges_to_keep, python_strings, python_strings_is_multiline) \<Rightarrow>
          Inr (ranges_to_keep @ [remaining], python_strings, python_strings_is_multiline))"

section \<open>The subprocess driver and the output normalizer (\<open>main\<close>, lines 112 to 147)\<close>

text \<open>
  The operating system as \<open>main\<close> sees it: whether \<open>fopen\<close> of the temporary file and of
  the target file succeed, and what \<open>OS_RunConsoleCommand\<close> does for a given content of the
  temporary file: \<open>None\<close> when it returns false, otherwise the buffers it hands to the print
  callback, in order (the chunks read from stdout, then those read from stderr; each is at
  most 511 bytes and is followed by a NUL in the buffer).
\<close>

record os =
  temp_file_ok :: bool
  run_python :: "string \<Rightarrow> string list option"
  target_file_ok :: bool

text \<open>The print callback: \<open>Result.Addf("%s", message)\<close>.\<close>

definition print_callback :: "string \<Rightarrow> string \<Rightarrow> string" where
  "print_callback Result message = Result @ cstr message"

text \<open>Lines 142 to 144.\<close>

definition normalize :: "DS_StringView \<Rightarrow> error + DS_StringView" where
  "normalize python_result =
     (case Slice python_result (int (length python_result) - 2) None of Inl e \<Rightarrow> Inl e
      | Inr tail \<Rightarrow>
          if tail = [CR, LF]
          then Slice python_result 0 (Some (int (length python_result) - 2))
          else Inr python_result)"

text \<open>One iteration of the loop: the temporary file receives the program text as a C string
  and one LF (\<open>fprintf(f, "%.*s\n", ...)\<close>).\<close>

definition run_snippet :: "os \<Rightarrow> DS_StringView \<Rightarrow> error + DS_StringView" where
  "run_snippet sys python_str =
     (if \<not> temp_file_ok sys then Inl TempFileFailed
      else case run_python sys (cstr python_str @ [LF]) of None \<Rightarrow> Inl PythonFailed
           | Some chunks \<Rightarrow> normalize (foldl print_callback [] chunks))"

fun run_snippets ::
  "os \<Rightarrow> DS_StringView list \<Rightarrow> DS_StringView list \<Rightarrow> error + DS_StringView list" where
  "run_snippets sys [] python_results = Inr python_results"
| "run_snippets sys (python_str # rest) python_results =
     (case run_snippet sys python_str of Inl e \<Rightarrow> Inl e
      | Inr python_result \<Rightarrow> run_snippets sys rest (python_results @ [python_result]))"

section \<open>The splicer (\<open>main\<close>, lines 151 to 181)\<close>

text \<open>Lines 159 to 162: the index of the first byte that is neither a space nor a tab.\<close>

function indent_loop :: "DS_StringView \<Rightarrow> nat \<Rightarrow> nat" where
  "indent_loop python_string indent =
     (if indent < length python_string then
        (if python_string ! indent \<noteq> SPACE \<and> python_string ! indent \<noteq> TAB then indent
         else indent_loop python_string (Suc indent))
      else indent)"
  by pat_completeness auto
termination
  by (relation "measure (\<lambda>(python_string, indent). length python_string - indent)") auto

declare indent_loop.simps [simp del]

text \<open>Line 163.\<close>

definition indent_str :: "bool \<Rightarrow> DS_StringView \<Rightarrow> error + DS_StringView" where
  "indent_str is_multiline python_string =
     Slice python_string 0
       (Some (if is_multiline then int (indent_loop python_string 0) else 0))"

definition sep :: "bool \<Rightarrow> string" where
  "sep is_multiline = (if is_multiline then [LF] else [SPACE])"

function splice_loop ::
  "DS_StringView list \<Rightarrow> bool list \<Rightarrow> DS_StringView list \<Rightarrow> nat \<Rightarrow> string \<Rightarrow> error + string"
  where
  "splice_loop ranges_to_keep python_strings_is_multiline python_results i result =
     (if i < length ranges_to_keep then
        (if 0 < i then
           (case at python_results (i - 1) of Inl e \<Rightarrow> Inl e
            | Inr python_string \<Rightarrow>
           (case at python_strings_is_multiline (i - 1) of Inl e \<Rightarrow> Inl e
            | Inr is_multiline \<Rightarrow>
           (case indent_str is_multiline python_string of Inl e \<Rightarrow> Inl e
            | Inr indent \<Rightarrow>
           (case at ranges_to_keep i of Inl e \<Rightarrow> Inl e
            | Inr kept \<Rightarrow>
               splice_loop ranges_to_keep python_strings_is_multiline python_results (Suc i)
                 (result @ sep is_multiline @ python_string @ sep is_multiline @ indent
                    @ kept)))))
         else
           (case at ranges_to_keep i of Inl e \<Rightarrow> Inl e
            | Inr kept \<Rightarrow>
               splice_loop ranges_to_keep python_strings_is_multiline python_results (Suc i)
                 (result @ kept)))
      else Inr result)"
  by pat_completeness auto
termination
  by (relation "measure (\<lambda>(rs, fs, ps, i, result). length rs - i)") auto

declare splice_loop.simps [simp del]

section \<open>\<open>main\<close>\<close>

text \<open>
  \<open>main\<close> from line 52 on, for the bytes \<open>file_data\<close> read from the file: \<open>Inr\<close> carries
  the bytes written back to the file (\<open>fprintf(f, "%s", result.CStr())\<close>), \<open>Inl\<close> the
  failure that ended the run before the file was written.
\<close>

definition main :: "os \<Rightarrow> string \<Rightarrow> error + string" where
  "main sys file_data =
     (case scan file_data of Inl e \<Rightarrow> Inl e
      | Inr (ranges_to_keep, python_strings, python_strings_is_multiline) \<Rightarrow>
     (case run_snippets sys python_strings [] of Inl e \<Rightarrow> Inl e
      | Inr python_results \<Rightarrow>
     (case splice_loop ranges_to_keep python_strings_is_multiline python_results 0 [] of
        Inl e \<Rightarrow> Inl e
      | Inr result \<Rightarrow>
          if target_file_ok sys then Inr (cstr result) else Inl TargetFileFailed)))"

text \<open>The expansion texts of a run (\<open>python_results\<close> after the loop of lines 112 to
  147), empty when the run fails before the splicer.\<close>

definition python_results_of :: "os \<Rightarrow> string \<Rightarrow> DS_StringView list" where
  "python_results_of sys file_data =
     (case scan file_data of Inl e \<Rightarrow> []
      | Inr (ranges_to_keep, python_strings, python_strings_is_multiline) \<Rightarrow>
     (case run_snippets sys python_strings [] of Inl e \<Rightarrow> []
      | Inr python_results \<Rightarrow> python_results))"

text \<open>The bytes of the file after a run: what \<open>main\<close> wrote, or the input when the run ended
  before the file was opened for writing.\<close>

definition file_after_run :: "os \<Rightarrow> string \<Rightarrow> string" where
  "file_after_run sys file_data =
     (case main sys file_data of Inl e \<Rightarrow> file_data | Inr written \<Rightarrow> written)"

section \<open>Notions used to state the properties\<close>

text \<open>\<open>other\<close> occurs in \<open>self\<close> at offset \<open>j\<close>.\<close>

definition occurs_at :: "string \<Rightarrow> string \<Rightarrow> nat \<Rightarrow> bool" where
  "occurs_at self other j \<longleftrightarrow>
     j + length other \<le> length self \<and> take (length other) (drop j self) = other"

text \<open>\<open>j\<close> is the offset of the leftmost occurrence of \<open>other\<close> at or after \<open>start\<close>; there
  is no occurrence at or after \<open>start\<close>.\<close>

definition first_occ :: "string \<Rightarrow> string \<Rightarrow> nat \<Rightarrow> nat \<Rightarrow> bool" where
  "first_occ self other start j \<longleftrightarrow>
     start \<le> j \<and> occurs_at self other j \<and>
     list_all (\<lambda>i. \<not> occurs_at self other i) [start..<j]"

definition no_occ :: "string \<Rightarrow> string \<Rightarrow> nat \<Rightarrow> bool" where
  "no_occ self other start \<longleftrightarrow>
     list_all (\<lambda>i. \<not> occurs_at self other i) [start..<length self]"

text \<open>The bytes the indentation loop skips.\<close>

definition blank :: "char \<Rightarrow> bool" where
  "blank c \<longleftrightarrow> c = SPACE \<or> c = TAB"

definition indent_prefix :: "bool \<Rightarrow> string \<Rightarrow> string" where
  "indent_prefix is_multiline python_result =
     (if is_multiline then takeWhile blank python_result else [])"

definition expansion :: "bool \<Rightarrow> string \<Rightarrow> string" where
  "expansion is_multiline python_result =
     sep is_multiline @ python_result @ sep is_multiline @ indent_prefix is_multiline python_result"

text \<open>The splicer's emission rule in the words of the specification: \<open>K\<^sub>0\<close>, then for
  each \<open>i\<close> from 1 on the separator, the expansion text, the separator again, the indent
  prefix and \<open>K\<^sub>i\<close>; \<open>F\<close> and \<open>R\<close> hold \<open>is_multiline\<close> and the expansion text of the
  directives, counted from 0.\<close>

definition spliced :: "string list \<Rightarrow> bool list \<Rightarrow> string list \<Rightarrow> string" where
  "spliced K F R =
     K ! 0 @ concat (map (\<lambda>i. sep (F ! (i - 1)) @ R ! (i - 1) @ sep (F ! (i - 1))
                              @ indent_prefix (F ! (i - 1)) (R ! (i - 1)) @ K ! i)
                      [1..<length K])"

text \<open>Kept ranges with one text after each but the last.\<close>

fun interleave :: "string list \<Rightarrow> string list \<Rightarrow> string" where
  "interleave (K # Ks) (E # Es) = K @ E @ interleave Ks Es"
| "interleave (K # Ks) [] = K @ interleave Ks []"
| "interleave [] Es = []"

text \<open>One iteration of the scanner loop up to line 65: \<open>None\<close> when the loop breaks,
  otherwise the kept range, the directive body and the new \<open>remaining\<close>.\<close>

definition scan_step :: "string \<Rightarrow> error + (string \<times> string \<times> string) option" where
  "scan_step remaining =
     (case Find remaining ''/*.py'' 0 of Inl e \<Rightarrow> Inl e
      | Inr pyexpand_offset \<Rightarrow>
        if pyexpand_offset = int (length remaining) then Inr None
        else
          (case Find remaining ''*/'' (pyexpand_offset + 5) of Inl e \<Rightarrow> Inl e
           | Inr end_comment_offset \<Rightarrow>
          (case Slice remaining (pyexpand_offset + 5) (Some end_comment_offset) of Inl e \<Rightarrow> Inl e
           | Inr python_string \<Rightarrow>
          (case Slice remaining 0 (Some (end_comment_offset + 2)) of Inl e \<Rightarrow> Inl e
           | Inr kept \<Rightarrow>
          (case Find remaining ''/*'' (end_comment_offset + 2) of Inl e \<Rightarrow> Inl e
           | Inr terminator_comment_offset \<Rightarrow>
          (case Slice remaining terminator_comment_offset None of Inl e \<Rightarrow> Inl e
           | Inr remaining' \<Rightarrow> Inr (Some (kept, python_string, remaining'))))))))"

text \<open>The line count in the words of the specification: the body is split on LF, one trailing
  CR of a line is ignored, and empty lines do not count.\<close>

primrec split_on :: "char \<Rightarrow> string \<Rightarrow> string list" where
  "split_on c [] = [[]]"
| "split_on c (x # xs) =
     (if x = c then [] # split_on c xs
      else (case split_on c xs of [] \<Rightarrow> [[x]] | l # ls \<Rightarrow> (x # l) # ls))"

definition strip_CR :: "string \<Rightarrow> string" where
  "strip_CR line = (if line \<noteq> [] \<and> last line = CR then butlast line else line)"

definition counted_lines :: "string \<Rightarrow> nat" where
  "counted_lines body = length (filter (\<lambda>line. strip_CR line \<noteq> []) (split_on LF body))"

text \<open>The indent prefix in the words of the specification, in its two readings: the leading
  run of spaces and tabs of the directive body (data model), and that of the first non-empty
  line of the generated program text (output normalizer); empty unless the directive is
  multiline.\<close>

definition first_nonempty_line :: "string \<Rightarrow> string" where
  "first_nonempty_line text =
     (case filter (\<lambda>line. line \<noteq> []) (split_on LF text) of [] \<Rightarrow> [] | line # _ \<Rightarrow> line)"

definition body_indent_prefix :: "bool \<Rightarrow> string \<Rightarrow> string" where
  "body_indent_prefix is_multiline body = (if is_multiline then takeWhile blank body else [])"

definition program_indent_prefix :: "bool \<Rightarrow> string \<Rightarrow> string" where
  "program_indent_prefix is_multiline program =
     (if is_multiline then takeWhile blank (first_nonempty_line program) else [])"

text \<open>An operating system on which both files open and the interpreter, whatever the
  program, writes \<open>out\<close> to its standard output, read in one chunk.\<close>

definition python_prints :: "string \<Rightarrow> os" where
  "python_prints out =
     \<lparr>temp_file_ok = True, run_python = (\<lambda>program. Some [out]), target_file_ok = True\<rparr>"

section \<open>Properties of \<open>Find\<close>\<close>

lemma Find_loop_eqI:
  "k \<le> j \<Longrightarrow> occurs_at s other j \<Longrightarrow> (\<And>i. k \<le> i \<Longrightarrow> i < j \<Longrightarrow> \<not> occurs_at s other i)
   \<Longrightarrow> Find_loop s other k = j"
proof (induction s other k rule: Find_loop.induct)
  case (1 self other ptr)
  show ?case
  proof (cases "ptr = j")
    case True
    with 1(3) show ?thesis by (subst Find_loop.simps) (simp add: occurs_at_def)
  next
    case False
    with 1(2) have lt: "ptr < j" by simp
    with 1(3) have fits: "ptr + length other \<le> length self" by (simp add: occurs_at_def)
    from 1(4)[of ptr] lt fits have nm: "take (length other) (drop ptr self) \<noteq> other"
      by (simp add: occurs_at_def)
    have "Find_loop self other (Suc ptr) = j"
      using 1(1)[OF fits nm _ 1(3)] 1(4) lt by simp
    with fits nm show ?thesis by (subst Find_loop.simps) simp
  qed
qed

lemma Find_loop_noneI:
  "(\<And>j. k \<le> j \<Longrightarrow> \<not> occurs_at s other j) \<Longrightarrow> Find_loop s other k = length s"
proof (induction s other k rule: Find_loop.induct)
  case (1 self other ptr)
  show ?case
  proof (cases "ptr + length other \<le> length self")
    case True
    with 1(2)[of ptr] have nm: "take (length other) (drop ptr self) \<noteq> other"
      by (simp add: occurs_at_def)
    have "Find_loop self other (Suc ptr) = length self"
      using 1(1)[OF True nm] 1(2) by simp
    with True nm show ?thesis by (subst Find_loop.simps) simp
  next
    case False
    then show ?thesis by (subst Find_loop.simps) simp
  qed
qed

lemma Find_loop_found:
  "Find_loop s other k < length s \<Longrightarrow>
     occurs_at s other (Find_loop s other k) \<and> k \<le> Find_loop s other k \<and>
     (\<forall>i. k \<le> i \<and> i < Find_loop s other k \<longrightarrow> \<not> occurs_at s other i)"
proof (induction s other k rule: Find_loop.induct)
  case (1 self other ptr)
  show ?case
  proof (cases "ptr + length other \<le> length self")
    case fits: True
    show ?thesis
    proof (cases "take (length other) (drop ptr self) = other")
      case True
      with fits have "Find_loop self other ptr = ptr" by (subst Find_loop.simps) simp
      with fits True show ?thesis by (auto simp: occurs_at_def)
    next
      case False
      with fits have eq: "Find_loop self other ptr = Find_loop self other (Suc ptr)"
        by (subst Find_loop.simps) simp
      from 1(1)[OF fits False] 1(2) eq
      have ih: "occurs_at self other (Find_loop self other (Suc ptr))"
        "Suc ptr \<le> Find_loop self other (Suc ptr)"
        "\<And>i. Suc ptr \<le> i \<Longrightarrow> i < Find_loop self other (Suc ptr) \<Longrightarrow> \<not> occurs_at self other i"
        by auto
      have "\<not> occurs_at self other ptr" using False by (simp add: occurs_at_def)
      with ih eq show ?thesis
        by (metis Suc_leD Suc_leI le_neq_implies_less)
    qed
  next
    case False
    then have "Find_loop self other ptr = length self" by (subst Find_loop.simps) simp
    with 1(2) show ?thesis by simp
  qed
qed

lemma Find_loop_none:
  assumes "other \<noteq> []" "Find_loop s other k = length s" "k \<le> j"
  shows "\<not> occurs_at s other j"
proof
  assume occ: "occurs_at s other j"
  define P where "P = (\<lambda>i. k \<le> i \<and> occurs_at s other i)"
  have "P j" using occ assms(3) by (simp add: P_def)
  then have "P (LEAST i. P i)" and least: "\<And>i. P i \<Longrightarrow> (LEAST i. P i) \<le> i"
    by (auto intro: LeastI Least_le)
  define m where "m = (LEAST i. P i)"
  have "Find_loop s other k = m"
    using \<open>P (LEAST i. P i)\<close> least unfolding m_def P_def
    by (intro Find_loop_eqI) (auto simp: not_le[symmetric])
  moreover have "m + length other \<le> length s"
    using \<open>P (LEAST i. P i)\<close> unfolding m_def P_def occurs_at_def by simp
  ultimately show False using assms(1,2) by (cases other) auto
qed

lemma sublist_iff_occurs: "sublist other s \<longleftrightarrow> (\<exists>j. occurs_at s other j)"
proof
  assume "sublist other s"
  then obtain ps ss where "s = ps @ other @ ss" by (auto simp: sublist_def)
  then have "occurs_at s other (length ps)" by (simp add: occurs_at_def)
  then show "\<exists>j. occurs_at s other j" ..
next
  assume "\<exists>j. occurs_at s other j"
  then obtain j where j: "j + length other \<le> length s" "take (length other) (drop j s) = other"
    by (auto simp: occurs_at_def)
  have "s = take j s @ take (length other) (drop j s) @ drop (length other) (drop j s)"
    by (simp only: append_take_drop_id)
  with j(2) have "s = take j s @ other @ drop (length other) (drop j s)" by simp
  then show "sublist other s" unfolding sublist_def by blast
qed

lemma Find_body_zero_found_iff:
  assumes "other \<noteq> []"
  shows "Find_body s other 0 \<noteq> length s \<longleftrightarrow> sublist other s"
proof (cases "length other \<le> length s")
  case True
  then have fb: "Find_body s other 0 = Find_loop s other 0" by (simp add: Find_body_def)
  show ?thesis
  proof
    assume "Find_body s other 0 \<noteq> length s"
    with fb Find_loop_le[of s other 0] have "Find_loop s other 0 < length s" by simp
    from Find_loop_found[OF this] show "sublist other s" by (auto simp: sublist_iff_occurs)
  next
    assume "sublist other s"
    then obtain j where "occurs_at s other j" by (auto simp: sublist_iff_occurs)
    with Find_loop_none[OF assms, of s 0 j] fb show "Find_body s other 0 \<noteq> length s" by auto
  qed
next
  case False
  then have "Find_body s other 0 = length s" by (simp add: Find_body_def)
  moreover have "\<not> sublist other s" using False
    by (auto simp: sublist_def)
  ultimately show ?thesis by simp
qed

section \<open>Properties of the normalizer, the driver and the indentation\<close>

lemma indent_loop_eq:
  "indent \<le> length s \<Longrightarrow> indent_loop s indent = indent + length (takeWhile blank (drop indent s))"
proof (induction s indent rule: indent_loop.induct)
  case (1 s indent)
  show ?case
  proof (cases "indent < length s")
    case True
    then have d: "drop indent s = s ! indent # drop (Suc indent) s"
      by (simp add: Cons_nth_drop_Suc)
    show ?thesis
    proof (cases "s ! indent \<noteq> SPACE \<and> s ! indent \<noteq> TAB")
      case stop: True
      with True d show ?thesis by (subst indent_loop.simps) (simp add: blank_def)
    next
      case False
      with 1(1)[OF True] True have "indent_loop s (Suc indent) = Suc indent + length (takeWhile blank (drop (Suc indent) s))"
        by simp
      with True False d show ?thesis by (subst indent_loop.simps) (auto simp: blank_def)
    qed
  next
    case False
    with 1(2) show ?thesis by (subst indent_loop.simps) simp
  qed
qed

lemma indent_str_eq: "indent_str is_multiline s = Inr (indent_prefix is_multiline s)"
proof -
  have "indent_loop s 0 = length (takeWhile blank s)" using indent_loop_eq[of 0 s] by simp
  moreover have "length (takeWhile blank s) \<le> length s" by (rule length_takeWhile_le)
  moreover have "take (length (takeWhile blank s)) s = takeWhile blank s"
    by (rule takeWhile_eq_take[symmetric])
  ultimately show ?thesis
    by (simp add: indent_str_def indent_prefix_def Slice_def)
qed

lemma fold_print_callback:
  "foldl print_callback acc chunks = acc @ concat (map cstr chunks)"
  by (induction chunks arbitrary: acc) (simp_all add: print_callback_def)

lemma cstr_no_NUL: "NUL \<notin> set (cstr s)"
  unfolding cstr_def by (induction s) auto

lemma cstr_id_iff: "cstr s = s \<longleftrightarrow> NUL \<notin> set s"
  unfolding cstr_def by (induction s) auto

lemma normalize_Inr:
  assumes "normalize r = Inr r'"
  shows "2 \<le> length r" "r' = (if drop (length r - 2) r = [CR, LF] then take (length r - 2) r else r)"
  using assms by (auto simp: normalize_def Slice_def Let_def nat_diff_distrib split: if_splits)

lemma normalize_long:
  assumes "2 \<le> length r"
  shows "normalize r = Inr (if drop (length r - 2) r = [CR, LF] then take (length r - 2) r else r)"
  using assms by (auto simp: normalize_def Slice_def Let_def nat_diff_distrib split: if_splits)

lemma normalize_subset: "normalize r = Inr r' \<Longrightarrow> set r' \<subseteq> set r"
  by (auto dest!: normalize_Inr(2) split: if_splits dest: in_set_takeD)

lemma run_snippet_no_NUL: "run_snippet sys p = Inr r \<Longrightarrow> NUL \<notin> set r"
proof -
  assume a: "run_snippet sys p = Inr r"
  then obtain chunks where "normalize (foldl print_callback [] chunks) = Inr r"
    by (auto simp: run_snippet_def split: if_splits option.splits)
  from normalize_subset[OF this] have "set r \<subseteq> set (concat (map cstr chunks))"
    by (simp add: fold_print_callback)
  moreover have "NUL \<notin> set (concat (map cstr chunks))" using cstr_no_NUL by auto
  ultimately show ?thesis by auto
qed

lemma run_snippets_Inr:
  "run_snippets sys ps acc = Inr rs \<longleftrightarrow>
     (\<exists>rs'. rs = acc @ rs' \<and> list_all2 (\<lambda>p r. run_snippet sys p = Inr r) ps rs')"
proof (induction ps arbitrary: acc)
  case Nil
  then show ?case by auto
next
  case (Cons p ps)
  show ?case
  proof (cases "run_snippet sys p")
    case (Inl e)
    then show ?thesis by (auto simp: list_all2_Cons1)
  next
    case (Inr r)
    then show ?thesis using Cons[of "acc @ [r]"] by (auto simp: list_all2_Cons1)
  qed
qed

section \<open>Properties of the splicer loop\<close>

lemma at_nth: "i < length xs \<Longrightarrow> at xs i = Inr (xs ! i)"
  by (simp add: at_def)

lemma splice_loop_index:
  assumes "length K = Suc (length R)" "length F = length R"
  shows "0 < i \<Longrightarrow> i \<le> length K \<Longrightarrow>
     splice_loop K F R i acc =
       Inr (acc @ concat (map (\<lambda>i. expansion (F ! (i - 1)) (R ! (i - 1)) @ K ! i) [i..<length K]))"
proof (induction "length K - i" arbitrary: i acc)
  case 0
  then show ?case by (subst splice_loop.simps) simp
next
  case (Suc n)
  then have lt: "i < length K" by simp
  with assms Suc.prems have i1: "i - 1 < length R" "i - 1 < length F" by simp_all
  have ih: "splice_loop K F R (Suc i) acc' =
       Inr (acc' @ concat (map (\<lambda>i. expansion (F ! (i - 1)) (R ! (i - 1)) @ K ! i) [Suc i..<length K]))"
    for acc'
    using Suc.hyps(1)[of "Suc i" acc'] Suc.hyps(2) lt by simp
  show ?case
    using lt Suc.prems(1) i1
    by (subst splice_loop.simps)
       (simp add: at_nth indent_str_eq ih upt_conv_Cons expansion_def)
qed

lemma splice_loop_spliced:
  assumes "length K = Suc (length R)" "length F = length R"
  shows "splice_loop K F R 0 [] = Inr (spliced K F R)"
proof -
  have "splice_loop K F R 0 [] = splice_loop K F R (Suc 0) (K ! 0)"
    using assms by (subst splice_loop.simps) (simp add: at_nth)
  also have "\<dots> = Inr (spliced K F R)"
    using splice_loop_index[OF assms, of "Suc 0" "K ! 0"] assms
    by (simp add: spliced_def expansion_def)
  finally show ?thesis .
qed

lemma spliced_Cons:
  "spliced (K0 # K1 # Ks) (f # F) (r # R) = K0 @ expansion f r @ spliced (K1 # Ks) F R"
proof -
  have upt: "[1..<length (K0 # K1 # Ks)] = 1 # map Suc [1..<length (K1 # Ks)]"
    by (simp add: upt_conv_Cons map_Suc_upt del: upt_Suc)
  have "concat (map (\<lambda>x. sep ((f # F) ! x) @ (r # R) ! x @ sep ((f # F) ! x)
               @ indent_prefix ((f # F) ! x) ((r # R) ! x) @ (K1 # Ks) ! x) [1..<length (K1 # Ks)])
      = concat (map (\<lambda>i. sep (F ! (i - 1)) @ R ! (i - 1) @ sep (F ! (i - 1))
               @ indent_prefix (F ! (i - 1)) (R ! (i - 1)) @ (K1 # Ks) ! i) [1..<length (K1 # Ks)])"
    by (rule arg_cong[where f = concat], rule map_cong) (auto simp: nth_Cons')
  with upt show ?thesis
    by (simp add: spliced_def expansion_def comp_def del: upt_Suc)
qed

lemma spliced_interleave:
  "length Ks = length R \<Longrightarrow> length F = length R \<Longrightarrow>
     spliced (K0 # Ks) F R = interleave (K0 # Ks) (map2 expansion F R)"
proof (induction R arbitrary: K0 Ks F)
  case Nil
  then show ?case by (simp add: spliced_def)
next
  case (Cons r R)
  then obtain k Ks' f F' where "Ks = k # Ks'" "F = f # F'"
    by (cases Ks; cases F) auto
  with Cons show ?case by (simp add: spliced_Cons)
qed

section \<open>Properties of the scanner loop\<close>

lemma scan_loop_step:
  "scan_loop r A B C =
     (case scan_step r of Inl e \<Rightarrow> Inl e
      | Inr None \<Rightarrow> Inr (r, A, B, C)
      | Inr (Some (kept, body, r')) \<Rightarrow>
          scan_loop r' (A @ [kept]) (B @ [fst (transform body)]) (C @ [snd (transform body)]))"
  by (subst scan_loop.simps) (simp add: scan_step_def split: sum.splits prod.splits)

lemma scan_step_shrinks': "scan_step r = Inr (Some (kept, body, r')) \<Longrightarrow> length r' < length r"
  by (auto simp: scan_step_def split: sum.splits if_splits intro: scan_step_shrinks)

lemma scan_loop_acc:
  "scan_loop r A B C =
     (case scan_loop r [] [] [] of Inl e \<Rightarrow> Inl e
      | Inr (l, Ks, Ps, Fs) \<Rightarrow> Inr (l, A @ Ks, B @ Ps, C @ Fs))"
proof (induction "length r" arbitrary: r A B C rule: less_induct)
  case less
  show ?case
  proof (cases "scan_step r")
    case (Inl e)
    then show ?thesis by (simp add: scan_loop_step[of r])
  next
    case (Inr x)
    show ?thesis
    proof (cases x)
      case None
      with Inr show ?thesis by (simp add: scan_loop_step[of r])
    next
      case (Some t)
      obtain kept body r' where t: "t = (kept, body, r')" by (cases t)
      from Inr Some t have st: "scan_step r = Inr (Some (kept, body, r'))" by simp
      note ih = less[OF scan_step_shrinks'[OF st]]
      show ?thesis
        by (simp add: scan_loop_step[of r] st)
           (subst ih, subst (2) ih, simp split: sum.splits)
    qed
  qed
qed

lemma scan_loop_Cons:
  "scan_step r = Inr (Some (kept, body, r')) \<Longrightarrow>
   scan_loop r [] [] [] =
     (case scan_loop r' [] [] [] of Inl e \<Rightarrow> Inl e
      | Inr (l, Ks, Ps, Fs) \<Rightarrow>
          Inr (l, kept # Ks, fst (transform body) # Ps, snd (transform body) # Fs))"
  by (simp add: scan_loop_step[of r]) (subst scan_loop_acc, simp split: sum.splits)

lemma scan_loop_None: "scan_step r = Inr None \<Longrightarrow> scan_loop r [] [] [] = Inr (r, [], [], [])"
  by (simp add: scan_loop_step[of r])

lemma scan_loop_Inl: "scan_step r = Inl e \<Longrightarrow> scan_loop r [] [] [] = Inl e"
  by (simp add: scan_loop_step[of r])

lemma occurs_at_bound: "other \<noteq> [] \<Longrightarrow> occurs_at s other j \<Longrightarrow> j < length s"
  by (cases other) (auto simp: occurs_at_def)

lemma Find_body_first_occ: "first_occ s other k j \<Longrightarrow> Find_body s other k = j"
  unfolding first_occ_def Find_body_def
  by (auto simp: list_all_iff occurs_at_def intro!: Find_loop_eqI)

lemma Find_body_no_occ:
  assumes "other \<noteq> []" "no_occ s other k"
  shows "Find_body s other k = length s"
proof -
  have "\<not> occurs_at s other j" if "k \<le> j" for j
    using assms that occurs_at_bound[OF assms(1), of s j]
    by (auto simp: no_occ_def list_all_iff)
  then show ?thesis by (simp add: Find_body_def Find_loop_noneI)
qed

lemma Find_body_found:
  assumes "Find_body s other k < length s"
  shows "first_occ s other k (Find_body s other k)"
proof -
  from assms have fb: "Find_body s other k = Find_loop s other k"
    by (auto simp: Find_body_def split: if_splits)
  with assms Find_loop_found[of s other k] show ?thesis
    by (auto simp: first_occ_def list_all_iff)
qed

lemma Find_body_not_found:
  assumes "other \<noteq> []" "Find_body s other k = length s"
  shows "no_occ s other k"
proof (cases "length other \<le> length s")
  case True
  with assms(2) have "Find_loop s other k = length s" by (simp add: Find_body_def)
  from Find_loop_none[OF assms(1) this] show ?thesis by (auto simp: no_occ_def list_all_iff)
next
  case False
  then show ?thesis by (auto simp: no_occ_def list_all_iff occurs_at_def)
qed

lemma Find_body_cases:
  assumes "other \<noteq> []"
  shows "first_occ s other k (Find_body s other k) \<or>
         (Find_body s other k = length s \<and> no_occ s other k)"
  using Find_body_le[of s other k] Find_body_found[of s other k]
    Find_body_not_found[OF assms, of s k]
  by (cases "Find_body s other k = length s") auto

lemma no_occ_zero_iff: "other \<noteq> [] \<Longrightarrow> no_occ s other 0 \<longleftrightarrow> \<not> sublist other s"
  by (auto simp: no_occ_def list_all_iff sublist_iff_occurs dest: occurs_at_bound)

lemma first_occ_fits: "first_occ s other k j \<Longrightarrow> j + length other \<le> length s"
  by (simp add: first_occ_def occurs_at_def)

lemma scan_step_NoneI: "\<not> sublist ''/*.py'' r \<Longrightarrow> scan_step r = Inr None"
  using Find_body_zero_found_iff[of "''/*.py''" r]
  by (simp add: scan_step_def Find_zero)

lemma scan_step_SomeI:
  assumes p: "first_occ r ''/*.py'' 0 p" and e: "first_occ r ''*/'' (p + 5) e"
  shows "scan_step r =
     Inr (Some (take (e + 2) r, take (e - (p + 5)) (drop (p + 5) r),
                drop (Find_body r ''/*'' (e + 2)) r))"
proof -
  from first_occ_fits[OF p] have pb: "p + 5 \<le> length r" by simp
  from first_occ_fits[OF e] have eb: "e + 2 \<le> length r" by simp
  from e have pe: "p + 5 \<le> e" by (simp add: first_occ_def)
  have f1: "Find r ''/*.py'' 0 = Inr (int p)"
    using Find_body_first_occ[OF p] by (simp add: Find_def)
  have f2: "Find r ''*/'' (int p + 5) = Inr (int e)"
    using Find_body_first_occ[OF e] pb by (simp add: Find_def nat_add_distrib)
  have s1: "Slice r (int p + 5) (Some (int e)) = Inr (take (e - (p + 5)) (drop (p + 5) r))"
    using pe eb by (simp add: Slice_def nat_add_distrib nat_diff_distrib)
  have s2: "Slice r 0 (Some (int e + 2)) = Inr (take (e + 2) r)"
    using eb by (simp add: Slice_def nat_add_distrib)
  have f3: "Find r ''/*'' (int e + 2) = Inr (int (Find_body r ''/*'' (e + 2)))"
    using eb by (simp add: Find_def nat_add_distrib)
  have s3: "Slice r (int (Find_body r other k)) None = Inr (drop (Find_body r other k) r)"
    for other k
    using Find_body_le[of r other k] by (simp add: Slice_def)
  show ?thesis using pb by (simp add: scan_step_def f1 f2 s1 s2 f3 s3)
qed

lemma scan_step_unclosed:
  assumes p: "first_occ r ''/*.py'' 0 p" and e: "no_occ r ''*/'' (p + 5)"
  shows "scan_step r = Inl AssertFailed"
proof -
  from first_occ_fits[OF p] have pb: "p + 5 \<le> length r" by simp
  have f1: "Find r ''/*.py'' 0 = Inr (int p)"
    using Find_body_first_occ[OF p] by (simp add: Find_def)
  have f2: "Find r ''*/'' (int p + 5) = Inr (int (length r))"
    using Find_body_no_occ[OF _ e] pb by (simp add: Find_def nat_add_distrib)
  show ?thesis using pb by (simp add: scan_step_def f1 f2 Slice_def)
qed

lemma scan_step_cases:
  obtains (none) "\<not> sublist ''/*.py'' r" "scan_step r = Inr None"
  | (unclosed) p where "first_occ r ''/*.py'' 0 p" "no_occ r ''*/'' (p + 5)"
      "scan_step r = Inl AssertFailed"
  | (some) p e where "first_occ r ''/*.py'' 0 p" "first_occ r ''*/'' (p + 5) e"
      "scan_step r = Inr (Some (take (e + 2) r, take (e - (p + 5)) (drop (p + 5) r),
                drop (Find_body r ''/*'' (e + 2)) r))"
proof -
  define p where "p = Find_body r ''/*.py'' 0"
  define e where "e = Find_body r ''*/'' (p + 5)"
  consider "no_occ r ''/*.py'' 0" | "first_occ r ''/*.py'' 0 p" "no_occ r ''*/'' (p + 5)"
    | "first_occ r ''/*.py'' 0 p" "first_occ r ''*/'' (p + 5) e"
    using Find_body_cases[of "''/*.py''" r 0] Find_body_cases[of "''*/''" r "p + 5"]
    unfolding p_def e_def by auto
  then show ?thesis
  proof cases
    case 1
    then have "\<not> sublist ''/*.py'' r" by (simp add: no_occ_zero_iff)
    then show ?thesis using none scan_step_NoneI by blast
  next
    case 2
    then show ?thesis using unclosed scan_step_unclosed by blast
  next
    case 3
    then show ?thesis using some scan_step_SomeI by blast
  qed
qed

section \<open>Properties of a whole run\<close>

lemma scan_no_marker: "\<not> sublist ''/*.py'' f \<Longrightarrow> scan f = Inr ([f], [], [])"
  by (simp add: scan_def scan_loop_None scan_step_NoneI)

lemma scan_lengths:
  "scan_loop r [] [] [] = Inr (l, Ks, Ps, Fs) \<Longrightarrow> length Ps = length Ks \<and> length Fs = length Ks"
proof (induction "length r" arbitrary: r l Ks Ps Fs rule: less_induct)
  case less
  show ?case
  proof (cases rule: scan_step_cases[of r])
    case none
    with less.prems show ?thesis by (simp add: scan_loop_None)
  next
    case (unclosed p)
    with less.prems show ?thesis by (simp add: scan_loop_Inl)
  next
    case (some p e)
    from less.prems less.hyps[OF scan_step_shrinks'[OF some(3)]] show ?thesis
      by (auto simp: scan_loop_Cons[OF some(3)] split: sum.splits)
  qed
qed

lemma scan_Inr_lengths:
  assumes "scan f = Inr (K, P, F)"
  shows "length K = Suc (length P)" "length F = length P"
  using assms scan_lengths[of f] by (auto simp: scan_def split: sum.splits)

lemma run_snippets_length: "run_snippets sys P [] = Inr R \<Longrightarrow> length R = length P"
  by (auto simp: run_snippets_Inr dest: list_all2_lengthD)

lemma main_eq:
  assumes "scan f = Inr (K, P, F)" "run_snippets sys P [] = Inr R"
  shows "main sys f = (if target_file_ok sys then Inr (cstr (spliced K F R)) else Inl TargetFileFailed)"
proof -
  from scan_Inr_lengths[OF assms(1)] run_snippets_length[OF assms(2)]
  have "length K = Suc (length R)" "length F = length R" by simp_all
  from splice_loop_spliced[OF this] assms show ?thesis by (simp add: main_def)
qed

lemma main_no_marker:
  assumes "\<not> sublist ''/*.py'' f"
  shows "main sys f = (if target_file_ok sys then Inr (cstr f) else Inl TargetFileFailed)"
  using main_eq[of f "[f]" "[]" "[]" sys "[]"] scan_no_marker[OF assms]
  by (simp add: spliced_def)

section \<open>Properties of the line-counting loop\<close>

lemma occurs_at_single: "occurs_at s [c] i \<longleftrightarrow> i < length s \<and> s ! i = c"
proof (cases "i < length s")
  case True
  then have "drop i s = s ! i # drop (Suc i) s" by (simp add: Cons_nth_drop_Suc)
  with True show ?thesis by (auto simp: occurs_at_def)
next
  case False
  then show ?thesis by (simp add: occurs_at_def)
qed

lemma Find_body_single: "Find_body s [c] 0 = length (takeWhile (\<lambda>x. x \<noteq> c) s)"
proof (cases "c \<in> set s")
  case True
  let ?P = "\<lambda>x. x \<noteq> c"
  let ?j = "length (takeWhile ?P s)"
  have "?j \<noteq> length s"
  proof
    assume eq: "?j = length s"
    have "takeWhile ?P s = take ?j s" by (rule takeWhile_eq_take)
    with eq have "takeWhile ?P s = s" by simp
    with True show False by (auto simp: takeWhile_eq_all_conv)
  qed
  with length_takeWhile_le[of ?P s] have lt: "?j < length s" by simp
  have "s ! ?j = c" using nth_length_takeWhile[OF lt] by simp
  moreover have "s ! i \<noteq> c" if "i < ?j" for i
  proof -
    have "takeWhile ?P s ! i = s ! i" using that by (rule takeWhile_nth)
    moreover have "takeWhile ?P s ! i \<in> set (takeWhile ?P s)" using that by (rule nth_mem)
    ultimately show ?thesis by (auto dest: set_takeWhileD)
  qed
  ultimately have "first_occ s [c] 0 ?j" using lt
    by (simp add: first_occ_def list_all_iff occurs_at_single)
  then show ?thesis by (rule Find_body_first_occ)
next
  case False
  then have "no_occ s [c] 0" by (auto simp: no_occ_def list_all_iff occurs_at_single)
  then have "Find_body s [c] 0 = length s" by (simp add: Find_body_no_occ)
  moreover from False have "takeWhile (\<lambda>x. x \<noteq> c) s = s"
    by (auto simp: takeWhile_eq_all_conv)
  ultimately show ?thesis by (simp only:)
qed

lemma Split_single:
  "Split s [c] = (takeWhile (\<lambda>x. x \<noteq> c) s, tl (dropWhile (\<lambda>x. x \<noteq> c) s))"
proof -
  let ?P = "\<lambda>x. x \<noteq> c"
  have t: "take (length (takeWhile ?P s)) s = takeWhile ?P s"
    by (rule takeWhile_eq_take[symmetric])
  have d: "drop (length (takeWhile ?P s)) s = dropWhile ?P s"
    by (rule dropWhile_eq_drop[symmetric])
  have "drop (Suc (length (takeWhile ?P s))) s = tl (dropWhile ?P s)"
    using d by (simp add: drop_Suc drop_tl)
  moreover have "dropWhile ?P s = []" if "length s < Suc (length (takeWhile ?P s))"
    using that d by simp
  ultimately show ?thesis
    by (auto simp: Split_def Find_body_single Let_def t)
qed

lemma count_lines_ge: "n \<le> count_lines l n"
proof (induction l n rule: count_lines.induct)
  case (1 lines n)
  show ?case
  proof (cases "0 < length lines")
    case True
    obtain a b where s: "Split lines [LF] = (a, b)" by (cases "Split lines [LF]")
    with 1[OF True s[symmetric]] True show ?thesis by (subst count_lines.simps) simp
  next
    case False
    then show ?thesis by (subst count_lines.simps) simp
  qed
qed

lemma count_lines_le_1:
  "count_lines body 0 \<le> 1 \<longleftrightarrow> body = [] \<or> tl (dropWhile (\<lambda>x. x \<noteq> LF) body) = []"
proof (cases "body = []")
  case True
  then show ?thesis by (subst count_lines.simps) simp
next
  case False
  let ?rest = "tl (dropWhile (\<lambda>x. x \<noteq> LF) body)"
  have c: "count_lines body 0 = count_lines ?rest 1"
    using False by (subst count_lines.simps) (simp add: Split_single)
  show ?thesis
  proof (cases "?rest = []")
    case True
    then have "count_lines ?rest 1 = 1" by (subst count_lines.simps) simp
    with c True show ?thesis by simp
  next
    case nonempty: False
    obtain a b where s: "Split ?rest [LF] = (a, b)" by (cases "Split ?rest [LF]")
    from nonempty have pos: "0 < length ?rest" by blast
    have "count_lines ?rest 1 =
        (case Split ?rest [LF] of (line, lines') \<Rightarrow> count_lines lines' (1 + 1))"
      by (subst count_lines.simps) (simp only: pos if_True)
    then have "count_lines ?rest 1 = count_lines b 2" by (simp only: s prod.case) simp
    with count_lines_ge[of 2 b] c have "\<not> count_lines body 0 \<le> 1" by simp
    with nonempty False show ?thesis by blast
  qed
qed

lemma first_LF_last_iff:
  "tl (dropWhile (\<lambda>x. x \<noteq> c) s) = [] \<longleftrightarrow> c \<notin> set (butlast s)"
  by (induction s) auto

lemma count_lines_le_1_iff: "count_lines body 0 \<le> 1 \<longleftrightarrow> LF \<notin> set (butlast body)"
  by (auto simp: count_lines_le_1 first_LF_last_iff)

lemma occurs_at_take: "occurs_at r other e \<Longrightarrow> take (e + length other) r = take e r @ other"
  by (simp add: occurs_at_def take_add)

lemma scan_kept_closed:
  "scan_loop r [] [] [] = Inr (l, Ks, Ps, Fs) \<Longrightarrow> k \<in> set Ks \<Longrightarrow> suffix ''*/'' k"
proof (induction "length r" arbitrary: r l Ks Ps Fs rule: less_induct)
  case less
  show ?case
  proof (cases rule: scan_step_cases[of r])
    case none
    with less.prems show ?thesis by (simp add: scan_loop_None)
  next
    case (unclosed p)
    with less.prems show ?thesis by (simp add: scan_loop_Inl)
  next
    case (some p e)
    from some(2) have "occurs_at r ''*/'' e" by (simp add: first_occ_def)
    from occurs_at_take[OF this] have "suffix ''*/'' (take (e + 2) r)"
      by (simp add: suffix_def)
    with less.prems less.hyps[OF scan_step_shrinks'[OF some(3)]] show ?thesis
      by (auto simp: scan_loop_Cons[OF some(3)] split: sum.splits)
  qed
qed

section \<open>Scanning the output of a run again\<close>

lemma occurs_at_append_left:
  "i + length other \<le> length xs \<Longrightarrow> occurs_at (xs @ ys) other i \<longleftrightarrow> occurs_at xs other i"
  by (auto simp: occurs_at_def)

lemma occurs_at_in_take:
  "i + length other \<le> n \<Longrightarrow> occurs_at (take n r) other i \<longleftrightarrow> occurs_at r other i"
  by (auto simp: occurs_at_def drop_take min_def)

lemma occurs_at_append_right:
  "occurs_at (xs @ ys) other (length xs + j) \<longleftrightarrow> occurs_at ys other j"
  by (auto simp: occurs_at_def)

lemma first_occ_in_take_append:
  assumes "first_occ r other k j" "j + length other \<le> n"
  shows "first_occ (take n r @ ys) other k j"
proof -
  from assms(1) have fits: "j + length other \<le> length r" by (rule first_occ_fits)
  have eq: "occurs_at (take n r @ ys) other i \<longleftrightarrow> occurs_at r other i" if "i \<le> j" for i
  proof -
    from that fits assms(2) have "i + length other \<le> length (take n r)" by simp
    then have "occurs_at (take n r @ ys) other i \<longleftrightarrow> occurs_at (take n r) other i"
      by (rule occurs_at_append_left)
    also have "\<dots> \<longleftrightarrow> occurs_at r other i"
      using that assms(2) by (intro occurs_at_in_take) simp
    finally show ?thesis .
  qed
  from assms(1) show ?thesis
    by (auto simp: first_occ_def list_all_iff eq)
qed

lemma occurs_at_pair:
  "occurs_at s [a, b] i \<longleftrightarrow> Suc i < length s \<and> s ! i = a \<and> s ! Suc i = b"
proof (cases "Suc i < length s")
  case True
  then have "drop i s = s ! i # s ! Suc i # drop (Suc (Suc i)) s"
    by (simp add: Cons_nth_drop_Suc Suc_lessD)
  with True show ?thesis by (auto simp: occurs_at_def)
next
  case False
  then show ?thesis by (auto simp: occurs_at_def)
qed

lemma no_pair_inside:
  assumes "\<not> sublist [a, b] E" "W = [] \<or> hd W \<noteq> b" "j < length E"
  shows "\<not> occurs_at (K @ E @ W) [a, b] (length K + j)"
proof
  assume "occurs_at (K @ E @ W) [a, b] (length K + j)"
  then have occ: "occurs_at (E @ W) [a, b] j" by (simp only: occurs_at_append_right)
  show False
  proof (cases "Suc j < length E")
    case True
    with occ have "occurs_at E [a, b] j" by (simp add: occurs_at_pair nth_append)
    with assms(1) show False by (auto simp: sublist_iff_occurs)
  next
    case False
    with assms(3) have j: "Suc j = length E" by simp
    with occ have "W \<noteq> []" "(E @ W) ! Suc j = b" by (auto simp: occurs_at_pair)
    with j assms(2) show False by (simp add: nth_append hd_conv_nth)
  qed
qed

lemma terminator_after_expansion:
  assumes "\<not> sublist ''/*'' E" "prefix ''/*'' W"
  shows "first_occ (K @ E @ W) ''/*'' (length K) (length K + length E)"
proof -
  from assms(2) obtain W' where W: "W = ''/*'' @ W'" by (auto simp: prefix_def)
  then have hd: "W = [] \<or> hd W \<noteq> CHR ''*''" by simp
  have "occurs_at (K @ E @ W) ''/*'' (length K + length E)"
    using W by (simp add: occurs_at_def)
  moreover have "\<not> occurs_at (K @ E @ W) ''/*'' i" if "length K \<le> i" "i < length K + length E" for i
    using no_pair_inside[OF assms(1) hd, of "i - length K" K] that by simp
  ultimately show ?thesis by (simp add: first_occ_def list_all_iff)
qed

lemma no_terminator_after_expansion:
  assumes "\<not> sublist ''/*'' E"
  shows "no_occ (K @ E) ''/*'' (length K)"
proof -
  have "\<not> occurs_at (K @ E @ []) ''/*'' i" if "length K \<le> i" "i < length K + length E" for i
    using no_pair_inside[OF assms, of "[]" "i - length K" K] that by simp
  then show ?thesis by (simp add: no_occ_def list_all_iff)
qed

lemma no_pair_append:
  fixes a b :: char
  assumes "\<not> sublist [a, b] xs" "\<not> sublist [a, b] ys"
    and "xs = [] \<or> last xs \<noteq> a \<or> ys = [] \<or> hd ys \<noteq> b"
  shows "\<not> sublist [a, b] (xs @ ys)"
proof
  assume "sublist [a, b] (xs @ ys)"
  then obtain j where occ: "occurs_at (xs @ ys) [a, b] j" by (auto simp: sublist_iff_occurs)
  show False
  proof (cases "j < length xs")
    case True
    show False
    proof (cases "Suc j < length xs")
      case True
      with occ have "occurs_at xs [a, b] j" by (simp add: occurs_at_pair nth_append)
      with assms(1) show False by (auto simp: sublist_iff_occurs)
    next
      case False
      with \<open>j < length xs\<close> have j: "Suc j = length xs" by simp
      with occ have "xs ! j = a" "ys \<noteq> []" "ys ! 0 = b"
        by (auto simp: occurs_at_pair nth_append)
      moreover from j have "xs \<noteq> []" by auto
      moreover from this j have "last xs = xs ! j"
        by (metis diff_Suc_1 last_conv_nth)
      ultimately show False using assms(3) by (simp add: hd_conv_nth)
    qed
  next
    case False
    then obtain j' where "j = length xs + j'" by (metis le_add_diff_inverse not_less)
    with occ have "occurs_at ys [a, b] j'" by (simp only: occurs_at_append_right)
    with assms(2) show False by (auto simp: sublist_iff_occurs)
  qed
qed

lemma no_pair_without_first: "a \<notin> set xs \<Longrightarrow> \<not> sublist [a, b] xs"
  by (auto dest: set_mono_sublist)

lemma expansion_no_terminator:
  assumes "\<not> sublist ''/*'' R"
  shows "\<not> sublist ''/*'' (expansion is_multiline R)"
proof -
  let ?tail = "sep is_multiline @ indent_prefix is_multiline R"
  have s: "CHR ''/'' \<notin> set (sep is_multiline)" by (simp add: sep_def)
  have "CHR ''/'' \<notin> set (indent_prefix is_multiline R)"
    by (auto simp: indent_prefix_def blank_def dest: set_takeWhileD)
  with s have "CHR ''/'' \<notin> set ?tail" by simp
  then have 1: "\<not> sublist ''/*'' ?tail" by (rule no_pair_without_first)
  have "hd ?tail \<noteq> CHR ''*''" by (simp add: sep_def)
  then have 2: "\<not> sublist ''/*'' (R @ ?tail)"
    using no_pair_append[OF assms 1] by blast
  have "sep is_multiline \<noteq> []" "last (sep is_multiline) \<noteq> CHR ''/''"
    by (simp_all add: sep_def)
  then have "\<not> sublist ''/*'' (sep is_multiline @ R @ ?tail)"
    using no_pair_append[OF no_pair_without_first[OF s] 2] by blast
  then show ?thesis by (simp add: expansion_def)
qed

lemma occurs_at_prefix: "occurs_at r other t \<Longrightarrow> prefix other (drop t r)"
  unfolding occurs_at_def by (metis take_is_prefix)

lemma scan_step_after_splice:
  assumes p: "first_occ r ''/*.py'' 0 p" and e: "first_occ r ''*/'' (p + 5) e"
    and E: "\<not> sublist ''/*'' E"
    and X_empty: "drop (Find_body r ''/*'' (e + 2)) r = [] \<Longrightarrow> X = []"
    and X_prefix: "prefix ''/*'' (drop (Find_body r ''/*'' (e + 2)) r) \<Longrightarrow> prefix ''/*'' X"
  shows "scan_step (take (e + 2) r @ E @ X) =
           Inr (Some (take (e + 2) r, take (e - (p + 5)) (drop (p + 5) r), X))"
proof -
  let ?kept = "take (e + 2) r"
  let ?body = "take (e - (p + 5)) (drop (p + 5) r)"
  let ?t = "Find_body r ''/*'' (e + 2)"
  let ?s2 = "?kept @ E @ X"
  from e have eb: "e + 2 \<le> length r" using first_occ_fits by fastforce
  from e have pe: "p + 5 \<le> e" by (simp add: first_occ_def)
  from eb have lk: "length ?kept = e + 2" by simp
  have p2: "first_occ ?s2 ''/*.py'' 0 p"
    using first_occ_in_take_append[OF p, of "e + 2"] pe by simp
  have e2: "first_occ ?s2 ''*/'' (p + 5) e"
    using first_occ_in_take_append[OF e, of "e + 2"] by simp
  have kept2: "take (e + 2) ?s2 = ?kept" using lk by simp
  have body2: "take (e - (p + 5)) (drop (p + 5) ?s2) = ?body"
    using pe eb by (simp add: drop_take min_def)
  have rest2: "drop (Find_body ?s2 ''/*'' (e + 2)) ?s2 = X"
  proof (rule disjE[OF Find_body_cases[of "''/*''" r "e + 2"]])
    show "''/*'' \<noteq> []" by simp
  next
    assume "first_occ r ''/*'' (e + 2) ?t"
    then have "occurs_at r ''/*'' ?t" by (simp add: first_occ_def)
    then have "prefix ''/*'' (drop ?t r)" by (rule occurs_at_prefix)
    then have "prefix ''/*'' X" by (rule X_prefix)
    from terminator_after_expansion[OF E this, of ?kept]
    have "Find_body ?s2 ''/*'' (e + 2) = e + 2 + length E"
      using lk by (simp add: Find_body_first_occ)
    then show ?thesis using lk by simp
  next
    assume "?t = length r \<and> no_occ r ''/*'' (e + 2)"
    then have "drop ?t r = []" by simp
    then have Xe: "X = []" by (rule X_empty)
    from no_terminator_after_expansion[OF E, of ?kept]
    have "Find_body (?kept @ E) ''/*'' (e + 2) = length (?kept @ E)"
      using lk by (simp add: Find_body_no_occ)
    then show ?thesis using Xe by simp
  qed
  from scan_step_SomeI[OF p2 e2] show ?thesis
    by (simp only: kept2 body2 rest2)
qed

lemma rescan:
  assumes "scan_loop r [] [] [] = Inr (l, Ks, Ps, Fs)" "length Es = length Ks"
    "\<And>E. E \<in> set Es \<Longrightarrow> \<not> sublist ''/*'' E"
  shows "scan_loop (interleave (Ks @ [l]) Es) [] [] [] = Inr (l, Ks, Ps, Fs)
         \<and> (r = [] \<longrightarrow> interleave (Ks @ [l]) Es = [])
         \<and> (prefix ''/*'' r \<longrightarrow> prefix ''/*'' (interleave (Ks @ [l]) Es))"
  using assms
proof (induction "length r" arbitrary: r l Ks Ps Fs Es rule: less_induct)
  case less
  show ?case
  proof (cases rule: scan_step_cases[of r])
    case none
    with less.prems(1) have "l = r" "Ks = []" "Ps = []" "Fs = []"
      by (simp_all add: scan_loop_None)
    with less.prems(1,2) show ?thesis by simp
  next
    case (unclosed p)
    with less.prems(1) show ?thesis by (simp add: scan_loop_Inl)
  next
    case (some p e)
    let ?kept = "take (e + 2) r"
    let ?body = "take (e - (p + 5)) (drop (p + 5) r)"
    let ?r' = "drop (Find_body r ''/*'' (e + 2)) r"
    from some(1) have pb: "p + 5 \<le> length r" using first_occ_fits by fastforce
    from less.prems(1) scan_loop_Cons[OF some(3)]
    obtain Ks' Ps' Fs' where
      r': "scan_loop ?r' [] [] [] = Inr (l, Ks', Ps', Fs')"
      and Ks: "Ks = ?kept # Ks'" and Ps: "Ps = fst (transform ?body) # Ps'"
      and Fs: "Fs = snd (transform ?body) # Fs'"
      by (auto split: sum.splits)
    from less.prems(2) Ks obtain E Es' where Es: "Es = E # Es'" and len: "length Es' = length Ks'"
      by (cases Es) auto
    let ?W = "interleave (Ks' @ [l]) Es'"
    let ?s2 = "?kept @ E @ ?W"
    have s2: "interleave (Ks @ [l]) Es = ?s2" by (simp add: Ks Es)
    from less.prems(3) Es have E: "\<not> sublist ''/*'' E"
      and Es': "\<And>E. E \<in> set Es' \<Longrightarrow> \<not> sublist ''/*'' E" by simp_all
    note ih = less.hyps[OF scan_step_shrinks'[OF some(3)] r' len Es']
    from ih have W: "scan_loop ?W [] [] [] = Inr (l, Ks', Ps', Fs')"
      and W_empty: "?r' = [] \<Longrightarrow> ?W = []"
      and W_prefix: "prefix ''/*'' ?r' \<Longrightarrow> prefix ''/*'' ?W"
      by simp_all
    from scan_step_after_splice[OF some(1,2) E W_empty W_prefix]
    have "scan_step ?s2 = Inr (Some (?kept, ?body, ?W))" by simp
    from scan_loop_Cons[OF this] W
    have 1: "scan_loop ?s2 [] [] [] = Inr (l, Ks, Ps, Fs)" by (simp add: Ks Ps Fs)
    have 2: "r \<noteq> []" using pb by auto
    have 3: "prefix ''/*'' ?s2" if "prefix ''/*'' r"
    proof -
      from that obtain r0 where "r = ''/*'' @ r0" by (auto simp: prefix_def)
      then have "prefix ''/*'' ?kept" by simp
      then show ?thesis by (rule prefix_prefix)
    qed
    from 1 2 3 show ?thesis by (simp only: s2) simp
  qed
qed

lemma scan_sets:
  "scan_loop r [] [] [] = Inr (l, Ks, Ps, Fs) \<Longrightarrow> k \<in> set (Ks @ [l]) \<Longrightarrow> set k \<subseteq> set r"
proof (induction "length r" arbitrary: r l Ks Ps Fs rule: less_induct)
  case less
  show ?case
  proof (cases rule: scan_step_cases[of r])
    case none
    with less.prems show ?thesis by (simp add: scan_loop_None)
  next
    case (unclosed p)
    with less.prems show ?thesis by (simp add: scan_loop_Inl)
  next
    case (some p e)
    let ?r' = "drop (Find_body r ''/*'' (e + 2)) r"
    from less.prems(1) scan_loop_Cons[OF some(3)]
    obtain Ks' Ps' Fs' where
      r': "scan_loop ?r' [] [] [] = Inr (l, Ks', Ps', Fs')"
      and Ks: "Ks = take (e + 2) r # Ks'"
      by (auto split: sum.splits)
    from less.prems(2) Ks consider "k = take (e + 2) r" | "k \<in> set (Ks' @ [l])" by auto
    then show ?thesis
    proof cases
      case 1
      then show ?thesis by (auto dest: in_set_takeD)
    next
      case 2
      from less.hyps[OF scan_step_shrinks'[OF some(3)] r' 2] show ?thesis
        by (auto dest: in_set_dropD)
    qed
  qed
qed

lemma interleave_set:
  "set (interleave Ks Es) \<subseteq> \<Union> (set ` set Ks) \<union> \<Union> (set ` set Es)"
  by (induction Ks Es rule: interleave.induct) auto

lemma expansion_no_NUL: "NUL \<notin> set R \<Longrightarrow> NUL \<notin> set (expansion is_multiline R)"
  by (auto simp: expansion_def sep_def indent_prefix_def dest: set_takeWhileD)

lemma second_run:
  assumes run1: "main sys file_data = Inr out1"
    and nul: "NUL \<notin> set file_data"
    and clean: "\<And>r. r \<in> set (python_results_of sys file_data) \<Longrightarrow> \<not> sublist ''/*'' r"
  shows "main sys out1 = Inr out1"
proof -
  from run1 obtain K P F R where sc: "scan file_data = Inr (K, P, F)"
    and rn: "run_snippets sys P [] = Inr R"
    by (auto simp: main_def split: sum.splits)
  from main_eq[OF sc rn] run1 have ok: "target_file_ok sys" and out1: "out1 = cstr (spliced K F R)"
    by (auto split: if_splits)
  from sc rn have results: "python_results_of sys file_data = R"
    by (simp add: python_results_of_def)
  from sc obtain l Ks where sl: "scan_loop file_data [] [] [] = Inr (l, Ks, P, F)"
    and K: "K = Ks @ [l]"
    by (auto simp: scan_def split: sum.splits)
  from scan_Inr_lengths[OF sc] run_snippets_length[OF rn] K
  have len: "length Ks = length R" "length F = length R" by simp_all
  let ?Es = "map2 expansion F R"
  from K have "K \<noteq> []" by simp
  then obtain K0 Kt where K0: "K = K0 # Kt" by (cases K) blast+
  from K len have "length K = Suc (length R)" by simp
  with K0 have "length Kt = length R" by simp
  from spliced_interleave[OF this len(2), of K0] K0 K
  have sp: "spliced K F R = interleave (Ks @ [l]) ?Es" by simp
  have lenE: "length ?Es = length Ks" using len by simp
  have R_no_NUL: "NUL \<notin> set r" if r: "r \<in> set R" for r
  proof -
    from rn r obtain i where "i < length R" "r = R ! i" "run_snippet sys (P ! i) = Inr (R ! i)"
      by (auto simp: run_snippets_Inr list_all2_conv_all_nth in_set_conv_nth)
    then show ?thesis using run_snippet_no_NUL by blast
  qed
  have E_props: "\<not> sublist ''/*'' E \<and> NUL \<notin> set E" if E: "E \<in> set ?Es" for E
  proof -
    from E obtain f r where "E = expansion f r" "r \<in> set R"
      by (auto dest: set_zip_rightD)
    with clean[of r] results R_no_NUL[of r] show ?thesis
      by (simp add: expansion_no_terminator expansion_no_NUL)
  qed
  have "NUL \<notin> set k" if "k \<in> set (Ks @ [l])" for k
    using scan_sets[OF sl that] nul by auto
  with E_props interleave_set[of "Ks @ [l]" ?Es] have "NUL \<notin> set (interleave (Ks @ [l]) ?Es)"
    by blast
  with out1 sp have o: "out1 = interleave (Ks @ [l]) ?Es" by (simp add: cstr_id_iff[THEN iffD2])
  from rescan[OF sl lenE] E_props have "scan_loop out1 [] [] [] = Inr (l, Ks, P, F)"
    unfolding o by blast
  then have "scan out1 = Inr (K, P, F)" by (simp add: scan_def K)
  from main_eq[OF this rn] ok out1 show ?thesis by simp
qed

lemma cstr_prefix: "prefix (cstr s) s"
  unfolding cstr_def by (metis prefixI takeWhile_dropWhile_id)

lemma cstr_append: "cstr (xs @ ys) = (if NUL \<in> set xs then cstr xs else xs @ cstr ys)"
  by (induction xs) (auto simp: cstr_def)

lemma sublist_of_prefix: "prefix xs ys \<Longrightarrow> sublist zs xs \<Longrightarrow> sublist zs ys"
  by (auto simp: prefix_def sublist_def) (metis append.assoc)

lemma occurs_at_drop:
  "other \<noteq> [] \<Longrightarrow> occurs_at (drop k r) other j \<Longrightarrow> occurs_at r other (k + j)"
  by (cases other) (auto simp: occurs_at_def add.commute)

lemma no_marker_before_first:
  assumes "first_occ r other 0 p" "other \<noteq> []"
  shows "\<not> sublist other (take p r)"
proof
  assume "sublist other (take p r)"
  then obtain i where i: "occurs_at (take p r) other i" by (auto simp: sublist_iff_occurs)
  then have "i + length other \<le> p" by (simp add: occurs_at_def)
  with i assms(2) have "occurs_at r other i" "i < p"
    by (simp_all add: occurs_at_in_take) (cases other, auto)
  with assms(1) show False by (auto simp: first_occ_def list_all_iff)
qed

lemma no_close_in_body:
  assumes "first_occ r ''*/'' k e"
  shows "\<not> sublist ''*/'' (take (e - k) (drop k r))"
proof
  assume "sublist ''*/'' (take (e - k) (drop k r))"
  then obtain j where j: "occurs_at (take (e - k) (drop k r)) ''*/'' j"
    by (auto simp: sublist_iff_occurs)
  then have fits: "j + 2 \<le> e - k" by (simp add: occurs_at_def)
  with j have "occurs_at (drop k r) ''*/'' j" by (simp add: occurs_at_in_take)
  then have "occurs_at r ''*/'' (k + j)" by (intro occurs_at_drop) simp_all
  moreover from fits have "k \<le> k + j" "k + j < e" by simp_all
  ultimately show False using assms by (auto simp: first_occ_def list_all_iff)
qed


lemma kept_parts:
  assumes p: "first_occ r ''/*.py'' 0 p" and e: "first_occ r ''*/'' (p + 5) e"
  shows "take (e + 2) r
           = take p r @ ''/*.py'' @ take (e - (p + 5)) (drop (p + 5) r) @ ''*/''"
    and "take (p + 5) r = take p r @ ''/*.py''"
proof -
  from p have "occurs_at r ''/*.py'' p" by (simp add: first_occ_def)
  from occurs_at_take[OF this] show 1: "take (p + 5) r = take p r @ ''/*.py''"
    by (simp add: eval_nat_numeral)
  from e have "occurs_at r ''*/'' e" and pe: "p + 5 \<le> e" by (simp_all add: first_occ_def)
  from occurs_at_take[OF this(1)] have 2: "take (e + 2) r = take e r @ ''*/''"
    by (simp add: eval_nat_numeral)
  from pe have "take e r = take (p + 5) r @ take (e - (p + 5)) (drop (p + 5) r)"
    using take_add[of "p + 5" "e - (p + 5)" r] by simp
  with 1 2 show "take (e + 2) r
           = take p r @ ''/*.py'' @ take (e - (p + 5)) (drop (p + 5) r) @ ''*/''"
    by simp
qed

lemma rescan_cut:
  assumes "scan_loop r [] [] [] = Inr (l, Ks, Ps, Fs)" "length Es = length Ks"
    "\<And>E. E \<in> set Es \<Longrightarrow> \<not> sublist ''/*'' E \<and> NUL \<notin> set E"
  shows "(\<exists>err. scan_loop (cstr (interleave (Ks @ [l]) Es)) [] [] [] = Inl err)
       \<or> (\<exists>n l'. scan_loop (cstr (interleave (Ks @ [l]) Es)) [] [] []
                    = Inr (l', take n Ks, take n Ps, take n Fs)
                \<and> interleave (take n Ks @ [l']) (take n Es) = cstr (interleave (Ks @ [l]) Es))"
  using assms
proof (induction "length r" arbitrary: r l Ks Ps Fs Es rule: less_induct)
  case less
  show ?case
  proof (cases rule: scan_step_cases[of r])
    case none
    with less.prems(1) have *: "l = r" "Ks = []" "Ps = []" "Fs = []"
      by (simp_all add: scan_loop_None)
    from none(1) have "\<not> sublist ''/*.py'' (cstr r)"
      using sublist_of_prefix[OF cstr_prefix] by blast
    then have "scan_loop (cstr r) [] [] [] = Inr (cstr r, [], [], [])"
      by (simp add: scan_loop_None scan_step_NoneI)
    with * less.prems(2) show ?thesis by simp
  next
    case (unclosed p)
    with less.prems(1) show ?thesis by (simp add: scan_loop_Inl)
  next
    case (some p e)
    let ?kept = "take (e + 2) r"
    let ?body = "take (e - (p + 5)) (drop (p + 5) r)"
    let ?t = "Find_body r ''/*'' (e + 2)"
    let ?r' = "drop ?t r"
    from less.prems(1) scan_loop_Cons[OF some(3)]
    obtain Ks' Ps' Fs' where
      r': "scan_loop ?r' [] [] [] = Inr (l, Ks', Ps', Fs')"
      and Ks: "Ks = ?kept # Ks'" and Ps: "Ps = fst (transform ?body) # Ps'"
      and Fs: "Fs = snd (transform ?body) # Fs'"
      by (auto split: sum.splits)
    from less.prems(2) Ks obtain E Es' where Es: "Es = E # Es'" and len: "length Es' = length Ks'"
      by (cases Es) auto
    let ?W = "interleave (Ks' @ [l]) Es'"
    have full: "interleave (Ks @ [l]) Es = ?kept @ E @ ?W" by (simp add: Ks Es)
    from less.prems(3) Es have E: "\<not> sublist ''/*'' E" "NUL \<notin> set E"
      and Es': "\<And>E. E \<in> set Es' \<Longrightarrow> \<not> sublist ''/*'' E \<and> NUL \<notin> set E" by simp_all
    note parts = kept_parts[OF some(1,2)]
    show ?thesis
    proof (cases "NUL \<in> set ?kept")
      case False
      then have cut: "cstr (?kept @ E @ ?W) = ?kept @ E @ cstr ?W"
        using E(2) by (simp add: cstr_append)
      from rescan[OF r' len] Es'
      have "?r' = [] \<longrightarrow> ?W = []" "prefix ''/*'' ?r' \<longrightarrow> prefix ''/*'' ?W" by blast+
      then have c1: "?r' = [] \<Longrightarrow> cstr ?W = []"
        and c2: "prefix ''/*'' ?r' \<Longrightarrow> prefix ''/*'' (cstr ?W)"
        by (auto simp: cstr_def prefix_def)
      from scan_step_after_splice[OF some(1,2) E(1) c1 c2]
      have st: "scan_step (?kept @ E @ cstr ?W) = Inr (Some (?kept, ?body, cstr ?W))" by simp
      from less.hyps[OF scan_step_shrinks'[OF some(3)] r' len Es']
      consider err where "scan_loop (cstr ?W) [] [] [] = Inl err"
        | n l' where "scan_loop (cstr ?W) [] [] [] = Inr (l', take n Ks', take n Ps', take n Fs')"
            "interleave (take n Ks' @ [l']) (take n Es') = cstr ?W"
        by blast
      then show ?thesis
      proof cases
        case 1
        with scan_loop_Cons[OF st] show ?thesis unfolding full cut by simp
      next
        case 2
        from scan_loop_Cons[OF st] 2(1)
        have "scan_loop (?kept @ E @ cstr ?W) [] [] []
            = Inr (l', take (Suc n) Ks, take (Suc n) Ps, take (Suc n) Fs)"
          by (simp add: Ks Ps Fs)
        moreover from 2(2)
        have "interleave (take (Suc n) Ks @ [l']) (take (Suc n) Es) = ?kept @ E @ cstr ?W"
          by (simp add: Ks Es)
        ultimately show ?thesis unfolding full cut by blast
      qed
    next
      case True
      then have cut: "cstr (?kept @ E @ ?W) = cstr ?kept" by (simp add: cstr_append)
      show ?thesis
      proof (cases "NUL \<in> set (take p r)")
        case before: True
        with parts(1) have ck: "cstr ?kept = cstr (take p r)" by (simp add: cstr_append)
        from no_marker_before_first[OF some(1)]
        have "\<not> sublist ''/*.py'' (cstr (take p r))"
          using sublist_of_prefix[OF cstr_prefix] by fastforce
        then have "scan_loop (cstr (take p r)) [] [] [] = Inr (cstr (take p r), [], [], [])"
          by (simp add: scan_loop_None scan_step_NoneI)
        then have "scan_loop (cstr (interleave (Ks @ [l]) Es)) [] [] []
              = Inr (cstr (take p r), take 0 Ks, take 0 Ps, take 0 Fs)
            \<and> interleave (take 0 Ks @ [cstr (take p r)]) (take 0 Es)
              = cstr (interleave (Ks @ [l]) Es)"
          unfolding full cut ck by simp
        then show ?thesis by blast
      next
        case False
        from True have "NUL \<in> set (take p r @ ''/*.py'' @ ?body @ ''*/'')"
          by (simp only: parts(1))
        with False have nb0: "NUL \<in> set ?body" by simp
        have c1: "cstr (?body @ ''*/'') = cstr ?body"
          using nb0 by (simp only: cstr_append if_True)
        have c2: "cstr (''/*.py'' @ ?body @ ''*/'') = ''/*.py'' @ cstr ?body"
          by (subst cstr_append) (simp add: c1)
        have c3: "cstr (take p r @ ''/*.py'' @ ?body @ ''*/'') = take p r @ ''/*.py'' @ cstr ?body"
          using False by (simp only: cstr_append[of "take p r"] if_False c2)
        have ck: "cstr ?kept = take (p + 5) r @ cstr ?body"
          by (simp only: parts(1) c3) (simp only: parts(2) append_assoc)
        from some(1) have pb: "p + 5 \<le> length r" using first_occ_fits by fastforce
        have p2: "first_occ (take (p + 5) r @ cstr ?body) ''/*.py'' 0 p"
          using first_occ_in_take_append[OF some(1), of "p + 5"] by simp
        from no_close_in_body[OF some(2)]
        have nb: "\<not> sublist ''*/'' (cstr ?body)"
          using sublist_of_prefix[OF cstr_prefix] by blast
        have "\<not> occurs_at (take (p + 5) r @ cstr ?body) ''*/'' i" if "p + 5 \<le> i" for i
        proof -
          from that pb obtain j where "i = length (take (p + 5) r) + j"
            by (metis le_add_diff_inverse length_take min.absorb2)
          with nb show ?thesis
            by (simp only: occurs_at_append_right) (auto simp: sublist_iff_occurs)
        qed
        then have "no_occ (take (p + 5) r @ cstr ?body) ''*/'' (p + 5)"
          by (simp add: no_occ_def list_all_iff)
        from scan_step_unclosed[OF p2 this]
        have "scan_loop (take (p + 5) r @ cstr ?body) [] [] [] = Inl AssertFailed"
          by (rule scan_loop_Inl)
        then show ?thesis unfolding full cut ck by simp
      qed
    qed
  qed
qed


lemma run_snippets_take:
  "run_snippets sys P [] = Inr R \<Longrightarrow> run_snippets sys (take n P) [] = Inr (take n R)"
  by (auto simp: run_snippets_Inr intro: list_all2_takeI)

lemma second_run_cut:
  assumes run1: "main sys file_data = Inr out1"
    and clean: "\<And>r. r \<in> set (python_results_of sys file_data) \<Longrightarrow> \<not> sublist ''/*'' r"
  shows "main sys out1 = Inr out1 \<or> (\<exists>err. main sys out1 = Inl err)"
proof -
  from run1 obtain K P F R where sc: "scan file_data = Inr (K, P, F)"
    and rn: "run_snippets sys P [] = Inr R"
    by (auto simp: main_def split: sum.splits)
  from main_eq[OF sc rn] run1 have ok: "target_file_ok sys" and out1: "out1 = cstr (spliced K F R)"
    by (auto split: if_splits)
  from sc rn have results: "python_results_of sys file_data = R"
    by (simp add: python_results_of_def)
  from sc obtain l Ks where sl: "scan_loop file_data [] [] [] = Inr (l, Ks, P, F)"
    and K: "K = Ks @ [l]"
    by (auto simp: scan_def split: sum.splits)
  from scan_Inr_lengths[OF sc] run_snippets_length[OF rn] K
  have len: "length Ks = length R" "length F = length R" "length P = length R" by simp_all
  let ?Es = "map2 expansion F R"
  from K have "K \<noteq> []" by simp
  then obtain K0 Kt where K0: "K = K0 # Kt" by (cases K) blast+
  from K len have "length K = Suc (length R)" by simp
  with K0 have "length Kt = length R" by simp
  from spliced_interleave[OF this len(2), of K0] K0 K
  have sp: "spliced K F R = interleave (Ks @ [l]) ?Es" by simp
  have lenE: "length ?Es = length Ks" using len by simp
  have R_no_NUL: "NUL \<notin> set r" if r: "r \<in> set R" for r
  proof -
    from rn r obtain i where "i < length R" "r = R ! i" "run_snippet sys (P ! i) = Inr (R ! i)"
      by (auto simp: run_snippets_Inr list_all2_conv_all_nth in_set_conv_nth)
    then show ?thesis using run_snippet_no_NUL by blast
  qed
  have E_props: "\<not> sublist ''/*'' E \<and> NUL \<notin> set E" if E: "E \<in> set ?Es" for E
  proof -
    from E obtain f r where "E = expansion f r" "r \<in> set R"
      by (auto dest: set_zip_rightD)
    with clean[of r] results R_no_NUL[of r] show ?thesis
      by (simp add: expansion_no_terminator expansion_no_NUL)
  qed
  from out1 sp have o: "out1 = cstr (interleave (Ks @ [l]) ?Es)" by simp
  from rescan_cut[OF sl lenE E_props]
  consider err where "scan_loop out1 [] [] [] = Inl err"
    | n l' where "scan_loop out1 [] [] [] = Inr (l', take n Ks, take n P, take n F)"
        "interleave (take n Ks @ [l']) (take n ?Es) = out1"
    unfolding o by blast
  then show ?thesis
  proof cases
    case 1
    then show ?thesis by (simp add: main_def scan_def)
  next
    case 2
    let ?K' = "take n Ks @ [l']"
    from 2(1) have sc2: "scan out1 = Inr (?K', take n P, take n F)" by (simp add: scan_def)
    note rn2 = run_snippets_take[OF rn, of n]
    from main_eq[OF sc2 rn2] ok
    have m: "main sys out1 = Inr (cstr (spliced ?K' (take n F) (take n R)))" by simp
    obtain K0' Kt' where K0': "?K' = K0' # Kt'" by (cases ?K') auto
    from scan_Inr_lengths[OF sc2] run_snippets_length[OF rn2]
    have "length ?K' = Suc (length (take n R))" "length (take n F) = length (take n R)"
      by simp_all
    with K0' have "length Kt' = length (take n R)" by simp
    from spliced_interleave[OF this \<open>length (take n F) = length (take n R)\<close>, of K0'] K0'
    have "spliced ?K' (take n F) (take n R) = interleave ?K' (map2 expansion (take n F) (take n R))"
      by simp
    also have "map2 expansion (take n F) (take n R) = take n ?Es"
      by (simp add: take_map take_zip)
    finally have "spliced ?K' (take n F) (take n R) = out1" using 2(2) by simp
    moreover have "cstr out1 = out1" unfolding out1 cstr_def by simp
    ultimately show ?thesis using m by simp
  qed
qed

section \<open>Directives, kept ranges and NUL bytes\<close>

lemma scan_directives:
  "scan_loop r [] [] [] = Inr (l, Ks, Ps, Fs) \<Longrightarrow>
     \<exists>Bs. list_all2 (\<lambda>k b. suffix (''/*.py'' @ b @ ''*/'') k) Ks Bs
        \<and> Ps = map (\<lambda>b. fst (transform b)) Bs \<and> Fs = map (\<lambda>b. snd (transform b)) Bs"
proof (induction "length r" arbitrary: r l Ks Ps Fs rule: less_induct)
  case less
  show ?case
  proof (cases rule: scan_step_cases[of r])
    case none
    with less.prems show ?thesis by (simp add: scan_loop_None)
  next
    case (unclosed p)
    with less.prems show ?thesis by (simp add: scan_loop_Inl)
  next
    case (some p e)
    let ?kept = "take (e + 2) r"
    let ?body = "take (e - (p + 5)) (drop (p + 5) r)"
    let ?r' = "drop (Find_body r ''/*'' (e + 2)) r"
    from less.prems(1) scan_loop_Cons[OF some(3)]
    obtain Ks' Ps' Fs' where
      r': "scan_loop ?r' [] [] [] = Inr (l, Ks', Ps', Fs')"
      and Ks: "Ks = ?kept # Ks'" and Ps: "Ps = fst (transform ?body) # Ps'"
      and Fs: "Fs = snd (transform ?body) # Fs'"
      by (auto split: sum.splits)
    from less.hyps[OF scan_step_shrinks'[OF some(3)] r']
    obtain Bs' where Bs': "list_all2 (\<lambda>k b. suffix (''/*.py'' @ b @ ''*/'') k) Ks' Bs'"
      "Ps' = map (\<lambda>b. fst (transform b)) Bs'" "Fs' = map (\<lambda>b. snd (transform b)) Bs'"
      by blast
    from kept_parts(1)[OF some(1,2)]
    have "suffix (''/*.py'' @ ?body @ ''*/'') ?kept" by (simp only: suffix_def) blast
    with Bs' have "list_all2 (\<lambda>k b. suffix (''/*.py'' @ b @ ''*/'') k) Ks (?body # Bs')
        \<and> Ps = map (\<lambda>b. fst (transform b)) (?body # Bs')
        \<and> Fs = map (\<lambda>b. snd (transform b)) (?body # Bs')"
      by (simp add: Ks Ps Fs)
    then show ?thesis by blast
  qed
qed

lemma interleave_kept_subset: "k \<in> set Ks \<Longrightarrow> set k \<subseteq> set (interleave Ks Es)"
  by (induction Ks Es rule: interleave.induct) auto

lemma spliced_NUL_iff:
  assumes "scan file_data = Inr (K, P, F)" and "run_snippets sys P [] = Inr R"
  shows "NUL \<notin> set (spliced K F R) \<longleftrightarrow> (\<forall>k \<in> set K. NUL \<notin> set k)"
    and "\<forall>r \<in> set R. NUL \<notin> set r"
proof -
  from scan_Inr_lengths[OF assms(1)] run_snippets_length[OF assms(2)]
  have len: "length K = Suc (length R)" "length F = length R" by simp_all
  then have "K \<noteq> []" by auto
  then obtain K0 Kt where K0: "K = K0 # Kt" by (cases K) blast+
  with len have "length Kt = length R" by simp
  from spliced_interleave[OF this len(2), of K0] K0
  have sp: "spliced K F R = interleave K (map2 expansion F R)" by simp
  show R: "\<forall>r \<in> set R. NUL \<notin> set r"
  proof
    fix r assume r: "r \<in> set R"
    from assms(2) r obtain i where "i < length R" "r = R ! i" "run_snippet sys (P ! i) = Inr (R ! i)"
      by (auto simp: run_snippets_Inr list_all2_conv_all_nth in_set_conv_nth)
    then show "NUL \<notin> set r" using run_snippet_no_NUL by blast
  qed
  have E: "NUL \<notin> set E" if E: "E \<in> set (map2 expansion F R)" for E
  proof -
    from E obtain f r where "E = expansion f r" "r \<in> set R"
      by (auto dest: set_zip_rightD)
    with R show ?thesis by (simp add: expansion_no_NUL)
  qed
  show "NUL \<notin> set (spliced K F R) \<longleftrightarrow> (\<forall>k \<in> set K. NUL \<notin> set k)"
  proof
    assume "NUL \<notin> set (spliced K F R)"
    then show "\<forall>k \<in> set K. NUL \<notin> set k"
      using interleave_kept_subset[of _ K "map2 expansion F R"] unfolding sp by blast
  next
    assume "\<forall>k \<in> set K. NUL \<notin> set k"
    with E interleave_set[of K "map2 expansion F R"] show "NUL \<notin> set (spliced K F R)"
      unfolding sp by blast
  qed
qed

section \<open>Classification of a directive body\<close>

text \<open>
  C9. The transformer classifies a directive body as multi-statement exactly when the body
  contains the byte string \<open>return\<close> somewhere; otherwise it is single-expression.
\<close>

theorem transform_multiline_iff_return:
  "snd (transform body) \<longleftrightarrow> sublist ''return'' body"
  using Find_body_zero_found_iff[of "''return''" body]
  by (simp add: transform_def Let_def)

section \<open>The normalizer on short outputs\<close>

text \<open>
  C6. The normalizer is claimed to return every captured output, the empty one and those of
  a single byte included, with one trailing CR LF removed when there is one and unchanged
  otherwise. On an output shorter than two bytes \<open>Slice(Size - 2)\<close> is called with a negative
  offset and its assertion \<open>from >= 0\<close> fails.
\<close>

theorem normalize_short_output_aborts:
  "normalize [] = Inl AssertFailed \<and> normalize ''3'' = Inl AssertFailed"
  by (simp add: normalize_def Slice_def)

section \<open>A directive that is never closed\<close>

text \<open>
  C4. The scanner is claimed never to abort: when \<open>/*.py\<close> is found and no \<open>*/\<close> follows,
  it should stop and keep the rest of the buffer as the tail range. On such an input
  \<open>Find\<close> returns the size, and \<open>Slice(0, end_comment_offset + 2)\<close> fails its assertion
  \<open>to <= Size\<close>.
\<close>

theorem scan_unclosed_directive_aborts:
  "scan ''int x; /*.py 1 + 2'' = Inl AssertFailed \<and>
   main (python_prints (''3'' @ [CR, LF])) ''int x; /*.py 1 + 2'' = Inl AssertFailed"
  by code_simp

section \<open>The layout of the spliced output\<close>

text \<open>
  C1, as stated: between a directive's closing \<open>*/\<close> and the next kept range the splicer
  emits the separator, the expansion text, the separator and the indent prefix, the indent
  prefix being the one of the specification (the leading spaces and tabs of the directive
  body, or of the first non-empty line of the program text). The splicer cuts the prefix
  from the expansion text: for the body \<open> return chr(9) + chr(120) \<close>, whose output is a tab
  and \<open>x\<close>, it writes a tab where the body starts with a space and the program text with no
  blank at all.
\<close>

theorem splicer_layout_counterexample:
  "scan ''/*.py return chr(9) + chr(120) */ old /* end */''
     = Inr ([''/*.py return chr(9) + chr(120) */'', ''/* end */''],
            [fst (transform '' return chr(9) + chr(120) '')],
            [snd (transform '' return chr(9) + chr(120) '')])
   \<and> snd (transform '' return chr(9) + chr(120) '')
   \<and> run_snippets (python_prints ([TAB] @ ''x'' @ [CR, LF]))
         [fst (transform '' return chr(9) + chr(120) '')] [] = Inr [[TAB] @ ''x'']
   \<and> splice_loop [''/*.py return chr(9) + chr(120) */'', ''/* end */''] [True] [[TAB] @ ''x''] 0 []
       = Inr (''/*.py return chr(9) + chr(120) */'' @ [LF] @ [TAB] @ ''x'' @ [LF] @ [TAB]
              @ ''/* end */'')
   \<and> body_indent_prefix True '' return chr(9) + chr(120) '' = [SPACE]
   \<and> program_indent_prefix True (fst (transform '' return chr(9) + chr(120) '')) = []
   \<and> splice_loop [''/*.py return chr(9) + chr(120) */'', ''/* end */''] [True] [[TAB] @ ''x''] 0 []
       \<noteq> Inr (''/*.py return chr(9) + chr(120) */'' @ sep True @ [TAB] @ ''x'' @ sep True
              @ body_indent_prefix True '' return chr(9) + chr(120) '' @ ''/* end */'')
   \<and> splice_loop [''/*.py return chr(9) + chr(120) */'', ''/* end */''] [True] [[TAB] @ ''x''] 0 []
       \<noteq> Inr (''/*.py return chr(9) + chr(120) */'' @ sep True @ [TAB] @ ''x'' @ sep True
              @ program_indent_prefix True (fst (transform '' return chr(9) + chr(120) ''))
              @ ''/* end */'')"
  by code_simp

text \<open>
  C1, amended: in every run that reaches the splicer, the splicer emits \<open>K\<^sub>0\<close> and then, for
  each directive \<open>i\<close> in source order, the separator, the expansion text after the trim, the
  separator again, the indent prefix and the kept range \<open>K\<^sub>i\<close>, where the separator is one
  LF for a multiline directive and one space otherwise, and the indent prefix is the leading
  run of spaces and tabs of that expansion text for a multiline directive and empty
  otherwise. The kept range before the expansion of a directive ends with that directive
  (\<open>/*.py\<close>, body, \<open>*/\<close>), the flag and the program text are those of its body, and the
  expansion text is what the driver returns for that program text.
\<close>

theorem splicer_layout:
  assumes "scan file_data = Inr (K, P, F)" and "run_snippets sys P [] = Inr R"
  shows "splice_loop K F R 0 [] =
           Inr (K ! 0 @
                concat (map (\<lambda>i. sep (F ! (i - 1)) @ R ! (i - 1) @ sep (F ! (i - 1))
                                   @ (if F ! (i - 1)
                                      then takeWhile (\<lambda>c. c = SPACE \<or> c = TAB) (R ! (i - 1))
                                      else [])
                                   @ K ! i)
                          [1..<length K]))
         \<and> length K = Suc (length R) \<and> length F = length R \<and> length P = length R
         \<and> (\<forall>i<length R. suffix ''*/'' (K ! i))
         \<and> (\<exists>B. length B = length R
                \<and> (\<forall>i<length R. suffix (''/*.py'' @ B ! i @ ''*/'') (K ! i)
                       \<and> P ! i = fst (transform (B ! i)) \<and> F ! i = snd (transform (B ! i))
                       \<and> run_snippet sys (P ! i) = Inr (R ! i)))
         \<and> sep True = [LF] \<and> sep False = [SPACE]"
proof -
  from scan_Inr_lengths[OF assms(1)] run_snippets_length[OF assms(2)]
  have len: "length K = Suc (length R)" "length F = length R" "length P = length R" by simp_all
  from assms(1) obtain l Ks where sl: "scan_loop file_data [] [] [] = Inr (l, Ks, P, F)"
    and K: "K = Ks @ [l]"
    by (auto simp: scan_def split: sum.splits)
  from K len have lKs: "length Ks = length R" by simp
  have closed: "suffix ''*/'' (K ! i)" if "i < length R" for i
  proof -
    from that lKs have "i < length Ks" by simp
    then have "K ! i \<in> set Ks" using K by (simp add: nth_append)
    with scan_kept_closed[OF sl] show ?thesis by blast
  qed
  from scan_directives[OF sl] obtain B where
    B: "list_all2 (\<lambda>k b. suffix (''/*.py'' @ b @ ''*/'') k) Ks B"
      "P = map (\<lambda>b. fst (transform b)) B" "F = map (\<lambda>b. snd (transform b)) B"
    by blast
  from B(1) lKs have lB: "length B = length R" by (auto dest: list_all2_lengthD)
  from assms(2) have run: "run_snippet sys (P ! i) = Inr (R ! i)" if "i < length R" for i
    using that by (auto simp: run_snippets_Inr list_all2_conv_all_nth)
  have tie: "suffix (''/*.py'' @ B ! i @ ''*/'') (K ! i)
      \<and> P ! i = fst (transform (B ! i)) \<and> F ! i = snd (transform (B ! i))
      \<and> run_snippet sys (P ! i) = Inr (R ! i)" if i: "i < length R" for i
  proof -
    from i lKs have "K ! i = Ks ! i" using K by (simp add: nth_append)
    moreover from B(1) i lKs have "suffix (''/*.py'' @ B ! i @ ''*/'') (Ks ! i)"
      by (simp add: list_all2_conv_all_nth)
    ultimately show ?thesis using B(2,3) i lB run[OF i] by simp
  qed
  have layout: "splice_loop K F R 0 [] =
           Inr (K ! 0 @
                concat (map (\<lambda>i. sep (F ! (i - 1)) @ R ! (i - 1) @ sep (F ! (i - 1))
                                   @ (if F ! (i - 1)
                                      then takeWhile (\<lambda>c. c = SPACE \<or> c = TAB) (R ! (i - 1))
                                      else [])
                                   @ K ! i)
                          [1..<length K]))"
    using splice_loop_spliced[OF len(1,2)]
    by (simp add: spliced_def indent_prefix_def blank_def[abs_def] if_distrib cong: if_cong)
  from tie lB have "\<exists>B. length B = length R
                \<and> (\<forall>i<length R. suffix (''/*.py'' @ B ! i @ ''*/'') (K ! i)
                       \<and> P ! i = fst (transform (B ! i)) \<and> F ! i = snd (transform (B ! i))
                       \<and> run_snippet sys (P ! i) = Inr (R ! i))"
    by blast
  with layout len closed show ?thesis by (simp add: sep_def)
qed

theorem splicer_layout_witness:
  "scan ''A /*.py 2*2 */ _ /* mid */ B /*.py 2*2 */ _ /* end */''
     = Inr ([''A /*.py 2*2 */'', ''/* mid */ B /*.py 2*2 */'', ''/* end */''],
            [''print( 2*2 )'' @ [LF], ''print( 2*2 )'' @ [LF]], [False, False])
   \<and> run_snippets (python_prints (''4'' @ [CR, LF]))
         [''print( 2*2 )'' @ [LF], ''print( 2*2 )'' @ [LF]] [] = Inr [''4'', ''4'']
   \<and> splice_loop [''A /*.py 2*2 */'', ''/* mid */ B /*.py 2*2 */'', ''/* end */'']
         [False, False] [''4'', ''4''] 0 []
       = Inr ''A /*.py 2*2 */ 4 /* mid */ B /*.py 2*2 */ 4 /* end */''"
proof -
  have h1: "scan ''A /*.py 2*2 */ _ /* mid */ B /*.py 2*2 */ _ /* end */''
     = Inr ([''A /*.py 2*2 */'', ''/* mid */ B /*.py 2*2 */'', ''/* end */''],
            [''print( 2*2 )'' @ [LF], ''print( 2*2 )'' @ [LF]], [False, False])"
    by code_simp
  have h2: "run_snippets (python_prints (''4'' @ [CR, LF]))
         [''print( 2*2 )'' @ [LF], ''print( 2*2 )'' @ [LF]] [] = Inr [''4'', ''4'']"
    by code_simp
  have u: "[1..<3] = [1, 2]" by code_simp
  from splicer_layout[OF h1 h2] have "splice_loop [''A /*.py 2*2 */'', ''/* mid */ B /*.py 2*2 */'', ''/* end */'']
         [False, False] [''4'', ''4''] 0 []
       = Inr ''A /*.py 2*2 */ 4 /* mid */ B /*.py 2*2 */ 4 /* end */''"
    by (simp add: u sep_def)
  with h1 h2 show ?thesis by (simp only:)
qed

section \<open>The indent prefix\<close>

text \<open>
  C2, as stated: for a multiline directive the indent prefix is the leading run of spaces and
  tabs of the directive body (equivalently, of the first non-empty line of the generated
  program text). The splicer takes it from the expansion text instead: for the body
  \<open>return chr(32) + chr(55)\<close> on a line of its own, whose output is a space and \<open>7\<close>, neither
  the body nor the program text starts with a space or a tab, and the prefix written after
  the expansion is one space.
\<close>

theorem indent_prefix_of_body_counterexample:
  "snd (transform ([LF] @ ''return chr(32) + chr(55)'' @ [LF]))
   \<and> takeWhile blank ([LF] @ ''return chr(32) + chr(55)'' @ [LF]) = []
   \<and> takeWhile blank (fst (transform ([LF] @ ''return chr(32) + chr(55)'' @ [LF]))) = []
   \<and> indent_str True '' 7'' = Inr '' ''
   \<and> main (python_prints ('' 7'' @ [CR, LF]))
         (''/*.py'' @ [LF] @ ''return chr(32) + chr(55)'' @ [LF] @ ''*/ old /*end*/'')
       = Inr (''/*.py'' @ [LF] @ ''return chr(32) + chr(55)'' @ [LF] @ ''*/''
              @ [LF] @ '' 7'' @ [LF] @ '' '' @ ''/*end*/'')"
  by code_simp

text \<open>
  C2, amended: for every multiline directive the indent prefix is the longest prefix of the
  normalized expansion text (the interpreter output after the trim) that consists of spaces
  and tabs only; for every single-expression directive it is empty.
\<close>

theorem indent_prefix_of_expansion_text:
  "indent_str is_multiline python_result =
     Inr (if is_multiline then takeWhile (\<lambda>c. c = SPACE \<or> c = TAB) python_result else [])"
  using indent_str_eq[of is_multiline python_result]
  by (simp add: indent_prefix_def blank_def[abs_def])

theorem indent_prefix_of_expansion_text_witness:
  "indent_str True ([SPACE, TAB] @ ''int x;'') = Inr [SPACE, TAB]
   \<and> indent_str False ([SPACE, TAB] @ ''int x;'') = Inr []"
  using indent_prefix_of_expansion_text[of True "[SPACE, TAB] @ ''int x;''"]
    indent_prefix_of_expansion_text[of False "[SPACE, TAB] @ ''int x;''"]
  by simp

section \<open>Bodies without \<open>return\<close>\<close>

text \<open>
  C3, as stated: a body without \<open>return\<close> becomes \<open>print(<body>)\<close> and LF exactly when it has
  at most one non-empty line (split on LF, a trailing CR ignored, empty lines not counted).
  The counting loop counts every piece that \<open>Split\<close> returns, empty or not: the body of a
  directive whose expression stands on a line of its own has one non-empty line and still
  gets the error program. And \<open>%.*s\<close> stops at a NUL byte of the body.
\<close>

theorem one_nonempty_line_counterexample:
  "\<not> sublist ''return'' ([LF] @ ''1 + 2'' @ [LF])
   \<and> counted_lines ([LF] @ ''1 + 2'' @ [LF]) = 1
   \<and> transform ([LF] @ ''1 + 2'' @ [LF]) = (error_program, False)
   \<and> error_program \<noteq> ''print('' @ ([LF] @ ''1 + 2'' @ [LF]) @ '')'' @ [LF]
   \<and> \<not> sublist ''return'' (''1'' @ [NUL] @ ''2'')
   \<and> counted_lines (''1'' @ [NUL] @ ''2'') = 1
   \<and> transform (''1'' @ [NUL] @ ''2'') = (''print(1)'' @ [LF], False)"
  by code_simp

text \<open>
  C3, amended: for every body that does not contain \<open>return\<close>, the transformer emits
  \<open>print(\<close>, the body up to its first NUL byte, \<open>)\<close> and LF exactly when no LF stands before
  the last byte of the body (the body is empty, or one piece when split on LF; empty pieces
  count and CR is not looked at); otherwise it emits the fixed error program. In both cases
  \<open>is_multiline\<close> is false.
\<close>

theorem transform_without_return:
  assumes "\<not> sublist ''return'' body"
  shows "transform body =
           (if LF \<in> set (butlast body) then error_program
            else ''print('' @ takeWhile (\<lambda>c. c \<noteq> NUL) body @ '')'' @ [LF], False)
         \<and> (fst (transform body) = ''print('' @ takeWhile (\<lambda>c. c \<noteq> NUL) body @ '')'' @ [LF])
             = (LF \<notin> set (butlast body))"
proof -
  have t: "transform body =
           (if LF \<in> set (butlast body) then error_program
            else ''print('' @ takeWhile (\<lambda>c. c \<noteq> NUL) body @ '')'' @ [LF], False)"
    using assms Find_body_zero_found_iff[of "''return''" body]
    by (simp add: transform_def count_lines_le_1_iff cstr_def)
  have "last error_program = CHR '')''" by (simp add: error_program_def)
  moreover have "last (''print('' @ takeWhile (\<lambda>c. c \<noteq> NUL) body @ '')'' @ [LF]) = LF"
    by simp
  ultimately have "error_program \<noteq> ''print('' @ takeWhile (\<lambda>c. c \<noteq> NUL) body @ '')'' @ [LF]"
  proof -
    assume l: "last error_program = CHR '')''"
      "last (''print('' @ takeWhile (\<lambda>c. c \<noteq> NUL) body @ '')'' @ [LF]) = LF"
    show ?thesis
    proof
      assume "error_program = ''print('' @ takeWhile (\<lambda>c. c \<noteq> NUL) body @ '')'' @ [LF]"
      then have "last error_program
          = last (''print('' @ takeWhile (\<lambda>c. c \<noteq> NUL) body @ '')'' @ [LF])"
        by (rule arg_cong)
      with l show False by (simp only:) simp
    qed
  qed
  with t show ?thesis by simp
qed

theorem transform_without_return_witness:
  "\<not> sublist ''return'' '' 1 + 2 ''
   \<and> transform '' 1 + 2 '' = (''print( 1 + 2 )'' @ [LF], False)
   \<and> \<not> sublist ''return'' (''x = 1'' @ [LF] @ ''y = 2'')
   \<and> transform (''x = 1'' @ [LF] @ ''y = 2'') = (error_program, False)"
proof -
  have h1: "\<not> sublist ''return'' '' 1 + 2 ''" by code_simp
  have h2: "\<not> sublist ''return'' (''x = 1'' @ [LF] @ ''y = 2'')" by code_simp
  from transform_without_return[OF h1] transform_without_return[OF h2] h1 h2
  show ?thesis by simp
qed

section \<open>A directive with no terminator after it\<close>

text \<open>
  C5, as stated: when the closing \<open>*/\<close> of a directive is found and no \<open>/*\<close> follows, the
  scanner keeps the whole rest of the buffer, stops, and does not emit the directive. In the
  code \<open>Find\<close> returns the size, \<open>Slice\<close> at the size gives the empty view, and the directive
  is pushed like any other: its expansion is written after the \<open>*/\<close> and replaces the
  bytes that followed.
\<close>

theorem missing_terminator_counterexample:
  "first_occ ''/*.py 1 + 2 */ old'' ''/*.py'' 0 0
   \<and> first_occ ''/*.py 1 + 2 */ old'' ''*/'' 5 12
   \<and> no_occ ''/*.py 1 + 2 */ old'' ''/*'' 14
   \<and> scan ''/*.py 1 + 2 */ old''
       = Inr ([''/*.py 1 + 2 */'', []], [''print( 1 + 2 )'' @ [LF]], [False])
   \<and> scan ''/*.py 1 + 2 */ old'' \<noteq> Inr ([''/*.py 1 + 2 */ old''], [], [])
   \<and> main (python_prints (''3'' @ [CR, LF])) ''/*.py 1 + 2 */ old'' = Inr ''/*.py 1 + 2 */ 3 ''"
  by code_simp

text \<open>
  C5, amended: when the closing \<open>*/\<close> of a directive is found and no \<open>/*\<close> occurs after it,
  the scanner (in whatever iteration of its loop) emits the kept range up to and including
  that \<open>*/\<close>, emits the directive, and goes on with an empty rest, so the tail kept range is
  empty; for the first directive of a file, the run then writes the kept range followed by
  the directive's expansion, and the bytes that followed the \<open>*/\<close> are dropped.
\<close>

theorem missing_terminator_expands_at_end:
  assumes "first_occ remaining ''/*.py'' 0 p"
    and "first_occ remaining ''*/'' (p + 5) e"
    and "no_occ remaining ''/*'' (e + 2)"
  shows "scan_loop remaining ranges_to_keep python_strings python_strings_is_multiline =
           Inr ([], ranges_to_keep @ [take (e + 2) remaining],
                python_strings @ [fst (transform (take (e - (p + 5)) (drop (p + 5) remaining)))],
                python_strings_is_multiline
                  @ [snd (transform (take (e - (p + 5)) (drop (p + 5) remaining)))])
         \<and> scan remaining =
           Inr ([take (e + 2) remaining, []],
                [fst (transform (take (e - (p + 5)) (drop (p + 5) remaining)))],
                [snd (transform (take (e - (p + 5)) (drop (p + 5) remaining)))])
         \<and> (\<forall>python_result.
               run_snippet sys (fst (transform (take (e - (p + 5)) (drop (p + 5) remaining))))
                 = Inr python_result \<longrightarrow>
               main sys remaining =
                 (if target_file_ok sys
                  then Inr (takeWhile (\<lambda>c. c \<noteq> NUL)
                         (take (e + 2) remaining
                          @ expansion (snd (transform (take (e - (p + 5)) (drop (p + 5) remaining))))
                              python_result))
                  else Inl TargetFileFailed))"
proof -
  let ?body = "take (e - (p + 5)) (drop (p + 5) remaining)"
  have "Find_body remaining ''/*'' (e + 2) = length remaining"
    using assms(3) by (simp add: Find_body_no_occ)
  with scan_step_SomeI[OF assms(1,2)]
  have st: "scan_step remaining = Inr (Some (take (e + 2) remaining, ?body, []))" by simp
  have "scan_step [] = Inr None" by (simp add: scan_step_NoneI)
  then have "scan_loop [] [] [] [] = Inr ([], [], [], [])" by (rule scan_loop_None)
  with scan_loop_Cons[OF st]
  have sl: "scan_loop remaining [] [] [] =
      Inr ([], [take (e + 2) remaining], [fst (transform ?body)], [snd (transform ?body)])"
    by simp
  then have sc: "scan remaining =
      Inr ([take (e + 2) remaining, []], [fst (transform ?body)], [snd (transform ?body)])"
    by (simp add: scan_def)
  have acc: "scan_loop remaining ranges_to_keep python_strings python_strings_is_multiline =
      Inr ([], ranges_to_keep @ [take (e + 2) remaining],
           python_strings @ [fst (transform ?body)],
           python_strings_is_multiline @ [snd (transform ?body)])"
    by (subst scan_loop_acc) (simp add: sl)
  have "main sys remaining =
      (if target_file_ok sys
       then Inr (takeWhile (\<lambda>c. c \<noteq> NUL)
              (take (e + 2) remaining @ expansion (snd (transform ?body)) python_result))
       else Inl TargetFileFailed)"
    if "run_snippet sys (fst (transform ?body)) = Inr python_result" for python_result
  proof -
    from that have "run_snippets sys [fst (transform ?body)] [] = Inr [python_result]" by simp
    from main_eq[OF sc this] show ?thesis
      by (simp add: spliced_def expansion_def cstr_def)
  qed
  with sc acc show ?thesis by blast
qed

theorem missing_terminator_expands_at_end_witness:
  "first_occ ''int a; /*.py 6 * 7 */ 41; // stale'' ''/*.py'' 0 7
   \<and> first_occ ''int a; /*.py 6 * 7 */ 41; // stale'' ''*/'' 12 19
   \<and> no_occ ''int a; /*.py 6 * 7 */ 41; // stale'' ''/*'' 21
   \<and> scan ''int a; /*.py 6 * 7 */ 41; // stale''
       = Inr ([''int a; /*.py 6 * 7 */'', []], [''print( 6 * 7 )'' @ [LF]], [False])
   \<and> main (python_prints (''42'' @ [CR, LF])) ''int a; /*.py 6 * 7 */ 41; // stale''
       = Inr ''int a; /*.py 6 * 7 */ 42 ''"
proof -
  have h1: "first_occ ''int a; /*.py 6 * 7 */ 41; // stale'' ''/*.py'' 0 7" by code_simp
  have h2: "first_occ ''int a; /*.py 6 * 7 */ 41; // stale'' ''*/'' (7 + 5) 19" by code_simp
  have h3: "no_occ ''int a; /*.py 6 * 7 */ 41; // stale'' ''/*'' (19 + 2)" by code_simp
  have t: "transform '' 6 * 7 '' = (''print( 6 * 7 )'' @ [LF], False)" by code_simp
  have r: "run_snippet (python_prints (''42'' @ [CR, LF])) (''print( 6 * 7 )'' @ [LF]) = Inr ''42''"
    by code_simp
  from missing_terminator_expands_at_end[OF h1 h2 h3, of "[]" "[]" "[]" "python_prints (''42'' @ [CR, LF])"]
    h1 h2 h3 t r
  show ?thesis
    by (simp add: expansion_def sep_def indent_prefix_def python_prints_def)
qed

section \<open>Files without a directive\<close>

text \<open>
  C7, as stated: a file in which \<open>/*.py\<close> does not occur is written back byte for byte. The
  file is written with \<open>fprintf(f, "%s", ...)\<close>, so a file that holds a NUL byte is cut there.
\<close>

theorem no_directive_identity_counterexample:
  "\<not> sublist ''/*.py'' (''int x;'' @ [NUL] @ ''int y;'')
   \<and> main (python_prints []) (''int x;'' @ [NUL] @ ''int y;'') = Inr ''int x;''
   \<and> ''int x;'' \<noteq> ''int x;'' @ [NUL] @ ''int y;''"
  by code_simp

text \<open>
  C7, amended: for every input file in which \<open>/*.py\<close> does not occur and which holds no NUL
  byte, a run that can open the file for writing writes back exactly the bytes of the input
  (and a run that cannot open it writes nothing).
\<close>

theorem no_directive_no_NUL_identity:
  assumes "\<not> sublist ''/*.py'' file_data" and "NUL \<notin> set file_data"
  shows "main sys file_data = (if target_file_ok sys then Inr file_data else Inl TargetFileFailed)"
  using main_no_marker[OF assms(1)] assms(2) by (simp add: cstr_id_iff)

theorem no_directive_no_NUL_identity_witness:
  "\<not> sublist ''/*.py'' ''int x = 1; /* no directive */''
   \<and> NUL \<notin> set ''int x = 1; /* no directive */''
   \<and> main (python_prints []) ''int x = 1; /* no directive */''
       = Inr ''int x = 1; /* no directive */''"
proof -
  have h1: "\<not> sublist ''/*.py'' ''int x = 1; /* no directive */''" by code_simp
  have h2: "NUL \<notin> set ''int x = 1; /* no directive */''" by simp
  from no_directive_no_NUL_identity[OF h1 h2, of "python_prints []"] h1 h2
  show ?thesis by (simp add: python_prints_def)
qed

section \<open>NUL bytes\<close>

text \<open>
  C10, as stated: the written bytes are the splicer's result up to its first NUL byte, each
  chunk of interpreter output is appended up to its first NUL byte, and hence the kept
  ranges are preserved byte for byte only when neither the input nor the interpreter output
  holds a NUL byte. The first two parts hold. The last does not: a NUL byte in the
  interpreter output only cuts that chunk, and a NUL byte of the input that stands between
  a \<open>*/\<close> and the next \<open>/*\<close> is replaced with the rest of that region; in both runs below
  every kept range is written in full.
\<close>

theorem kept_ranges_with_NUL_counterexample:
  "NUL \<in> set (''30'' @ [CR, LF, NUL] @ ''junk'')
   \<and> scan ''/*.py 5 * 6 */ old /* x */''
       = Inr ([''/*.py 5 * 6 */'', ''/* x */''], [''print( 5 * 6 )'' @ [LF]], [False])
   \<and> main (python_prints (''30'' @ [CR, LF, NUL] @ ''junk'')) ''/*.py 5 * 6 */ old /* x */''
       = Inr (''/*.py 5 * 6 */'' @ '' 30 '' @ ''/* x */'')
   \<and> NUL \<in> set (''/*.py 5 * 6 */ o'' @ [NUL] @ ''ld /* x */'')
   \<and> scan (''/*.py 5 * 6 */ o'' @ [NUL] @ ''ld /* x */'')
       = Inr ([''/*.py 5 * 6 */'', ''/* x */''], [''print( 5 * 6 )'' @ [LF]], [False])
   \<and> main (python_prints (''30'' @ [CR, LF])) (''/*.py 5 * 6 */ o'' @ [NUL] @ ''ld /* x */'')
       = Inr (''/*.py 5 * 6 */'' @ '' 30 '' @ ''/* x */'')"
  by code_simp

text \<open>
  C10, amended: the bytes written to the file are the splicer's result up to its first NUL
  byte, and the print callback appends each chunk of interpreter output up to its first NUL
  byte, so that no expansion text holds a NUL byte. Hence the file holds the whole result,
  every kept range byte for byte, exactly when no kept range holds a NUL byte, and a file
  without a directive is written back unchanged exactly when it holds no NUL byte.
\<close>

theorem written_file_is_C_string:
  assumes "scan file_data = Inr (K, P, F)" and "run_snippets sys P [] = Inr R"
    and "target_file_ok sys"
  shows "main sys file_data = Inr (takeWhile (\<lambda>c. c \<noteq> NUL) (spliced K F R))
         \<and> ((main sys file_data = Inr (spliced K F R)) = (NUL \<notin> set (spliced K F R)))
         \<and> ((main sys file_data = Inr (spliced K F R)) = (\<forall>k \<in> set K. NUL \<notin> set k))
         \<and> (\<forall>r \<in> set R. NUL \<notin> set r)
         \<and> foldl print_callback Result chunks
             = Result @ concat (map (takeWhile (\<lambda>c. c \<noteq> NUL)) chunks)
         \<and> (\<not> sublist ''/*.py'' file_data \<longrightarrow>
               (main sys file_data = Inr file_data) = (NUL \<notin> set file_data))"
proof -
  have m: "main sys file_data = Inr (cstr (spliced K F R))"
    using main_eq[OF assms(1,2)] assms(3) by simp
  then have m1: "main sys file_data = Inr (takeWhile (\<lambda>c. c \<noteq> NUL) (spliced K F R))"
    by (simp add: cstr_def)
  from m have m2: "(main sys file_data = Inr (spliced K F R)) = (NUL \<notin> set (spliced K F R))"
    by (simp add: cstr_id_iff)
  note n = spliced_NUL_iff[OF assms(1,2)]
  from m2 n(1) have m3: "(main sys file_data = Inr (spliced K F R)) = (\<forall>k \<in> set K. NUL \<notin> set k)"
    by (simp only:)
  have c: "foldl print_callback Result chunks
      = Result @ concat (map (takeWhile (\<lambda>c. c \<noteq> NUL)) chunks)"
    using fold_print_callback[of Result chunks] by (simp add: cstr_def[abs_def])
  have z: "(main sys file_data = Inr file_data) = (NUL \<notin> set file_data)"
    if "\<not> sublist ''/*.py'' file_data"
    using main_no_marker[OF that, of sys] assms(3) by (simp add: cstr_id_iff)
  from m1 m2 m3 n(2) c z show ?thesis by blast
qed

theorem written_file_is_C_string_witness:
  "scan (''/*.py 5 * 6 */ old /* x'' @ [NUL] @ ''y */'')
     = Inr ([''/*.py 5 * 6 */'', ''/* x'' @ [NUL] @ ''y */''], [''print( 5 * 6 )'' @ [LF]], [False])
   \<and> run_snippets (python_prints (''30'' @ [CR, LF, NUL] @ ''junk''))
         [''print( 5 * 6 )'' @ [LF]] [] = Inr [''30'']
   \<and> target_file_ok (python_prints (''30'' @ [CR, LF, NUL] @ ''junk''))
   \<and> main (python_prints (''30'' @ [CR, LF, NUL] @ ''junk''))
         (''/*.py 5 * 6 */ old /* x'' @ [NUL] @ ''y */'')
       = Inr ''/*.py 5 * 6 */ 30 /* x''
   \<and> foldl print_callback ''30'' [[CR, LF, NUL] @ ''junk''] = ''30'' @ [CR, LF]"
proof -
  have h1: "scan (''/*.py 5 * 6 */ old /* x'' @ [NUL] @ ''y */'')
     = Inr ([''/*.py 5 * 6 */'', ''/* x'' @ [NUL] @ ''y */''], [''print( 5 * 6 )'' @ [LF]], [False])"
    by code_simp
  have h2: "run_snippets (python_prints (''30'' @ [CR, LF, NUL] @ ''junk''))
         [''print( 5 * 6 )'' @ [LF]] [] = Inr [''30'']"
    by code_simp
  have h3: "target_file_ok (python_prints (''30'' @ [CR, LF, NUL] @ ''junk''))"
    by (simp add: python_prints_def)
  note t = written_file_is_C_string[OF h1 h2 h3, of "''30''" "[[CR, LF, NUL] @ ''junk'']"]
  from t have a: "main (python_prints (''30'' @ [CR, LF, NUL] @ ''junk''))
         (''/*.py 5 * 6 */ old /* x'' @ [NUL] @ ''y */'')
       = Inr ''/*.py 5 * 6 */ 30 /* x''"
    by (simp add: spliced_def sep_def indent_prefix_def)
  from t have b: "foldl print_callback ''30'' [[CR, LF, NUL] @ ''junk''] = ''30'' @ [CR, LF]"
    by simp
  from h1 h2 h3 a b show ?thesis by (simp only:)
qed

section \<open>Running the tool twice\<close>

text \<open>
  C8, as stated: when every snippet prints the same on every run, a second run leaves the
  file as the first run left it. The operating system below is one fixed function, so each
  program prints the same on every run. An expansion text that contains \<open>/*\<close> is taken for
  the terminator comment by the next run, which then keeps it and writes the expansion in
  front of it once more.
\<close>

theorem second_run_counterexample:
  "main (python_prints (''/*'' @ [CR, LF])) ''/*.py chr(47) + chr(42) */ old /* end */''
     = Inr ''/*.py chr(47) + chr(42) */ /* /* end */''
   \<and> main (python_prints (''/*'' @ [CR, LF])) ''/*.py chr(47) + chr(42) */ /* /* end */''
     = Inr ''/*.py chr(47) + chr(42) */ /* /* /* end */''
   \<and> file_after_run (python_prints (''/*'' @ [CR, LF]))
         (file_after_run (python_prints (''/*'' @ [CR, LF]))
            ''/*.py chr(47) + chr(42) */ old /* end */'')
       \<noteq> file_after_run (python_prints (''/*'' @ [CR, LF]))
            ''/*.py chr(47) + chr(42) */ old /* end */''"
  by code_simp

text \<open>
  C8, amended: for every input file, if every snippet prints the same on every run and no
  expansion text of the first run (interpreter output after the trim) contains \<open>/*\<close>, then
  the file bytes after a second run are the file bytes after the first run. When the input
  holds no NUL byte, a first run that writes the file is moreover followed by a second run
  that completes and writes the same bytes (with a NUL byte the first run can cut the file
  inside a directive, and the second run then aborts and leaves the file as it is).
\<close>

theorem second_run_same_bytes:
  assumes "\<forall>r \<in> set (python_results_of sys file_data). \<not> sublist ''/*'' r"
  shows "file_after_run sys (file_after_run sys file_data) = file_after_run sys file_data
         \<and> (NUL \<notin> set file_data \<longrightarrow>
              (\<forall>out1. main sys file_data = Inr out1 \<longrightarrow> main sys out1 = Inr out1))"
proof -
  have written: "main sys out1 = Inr out1"
    if "main sys file_data = Inr out1" "NUL \<notin> set file_data" for out1
    using second_run[OF that] assms by blast
  have "file_after_run sys (file_after_run sys file_data) = file_after_run sys file_data"
  proof (cases "main sys file_data")
    case (Inl e)
    then show ?thesis by (simp add: file_after_run_def)
  next
    case (Inr out1)
    from second_run_cut[OF Inr] assms
    have "main sys out1 = Inr out1 \<or> (\<exists>err. main sys out1 = Inl err)" by blast
    with Inr show ?thesis by (auto simp: file_after_run_def)
  qed
  with written show ?thesis by blast
qed

theorem second_run_same_bytes_witness:
  "python_results_of (python_prints (''4'' @ [CR, LF]))
         ''A /*.py 2*2 */ _ /* mid */ B /*.py 2*2 */ _ /* end */'' = [''4'', ''4'']
   \<and> \<not> sublist ''/*'' ''4''
   \<and> file_after_run (python_prints (''4'' @ [CR, LF]))
         ''A /*.py 2*2 */ _ /* mid */ B /*.py 2*2 */ _ /* end */''
       = ''A /*.py 2*2 */ 4 /* mid */ B /*.py 2*2 */ 4 /* end */''
   \<and> file_after_run (python_prints (''4'' @ [CR, LF]))
         ''A /*.py 2*2 */ 4 /* mid */ B /*.py 2*2 */ 4 /* end */''
       = ''A /*.py 2*2 */ 4 /* mid */ B /*.py 2*2 */ 4 /* end */''"
proof -
  have r: "python_results_of (python_prints (''4'' @ [CR, LF]))
         ''A /*.py 2*2 */ _ /* mid */ B /*.py 2*2 */ _ /* end */'' = [''4'', ''4'']"
    by code_simp
  have s: "\<not> sublist ''/*'' ''4''" by code_simp
  have h: "\<forall>r \<in> set (python_results_of (python_prints (''4'' @ [CR, LF]))
         ''A /*.py 2*2 */ _ /* mid */ B /*.py 2*2 */ _ /* end */''). \<not> sublist ''/*'' r"
    using s by (simp only: r) simp
  have m: "file_after_run (python_prints (''4'' @ [CR, LF]))
         ''A /*.py 2*2 */ _ /* mid */ B /*.py 2*2 */ _ /* end */''
       = ''A /*.py 2*2 */ 4 /* mid */ B /*.py 2*2 */ 4 /* end */''"
    by code_simp
  from second_run_same_bytes[OF h]
  have "file_after_run (python_prints (''4'' @ [CR, LF]))
         (file_after_run (python_prints (''4'' @ [CR, LF]))
            ''A /*.py 2*2 */ _ /* mid */ B /*.py 2*2 */ _ /* end */'')
       = file_after_run (python_prints (''4'' @ [CR, LF]))
            ''A /*.py 2*2 */ _ /* mid */ B /*.py 2*2 */ _ /* end */''"
    by blast
  then have "file_after_run (python_prints (''4'' @ [CR, LF]))
         ''A /*.py 2*2 */ 4 /* mid */ B /*.py 2*2 */ 4 /* end */''
       = ''A /*.py 2*2 */ 4 /* mid */ B /*.py 2*2 */ 4 /* end */''"
    by (simp only: m)
  with r s m show ?thesis by (simp only:) simp
qed

end
